theory Spec2Isabelle
  imports Main
begin

section \<open>JavaScript values\<close>

text \<open>
  The state \<open>T\<close> of \<open>setupState<T>\<close> is an object; its fields hold primitives,
  nested objects or functions. An object is the list of its own properties in insertion
  order. A nested object or a function carries the identity of its allocation (a
  number), because \<open>distinctUntilChanged()\<close> compares with \<open>===\<close>, which on objects
  is identity. The identity of a whole snapshot is never inspected by the program, so a
  snapshot is modelled by its properties alone. JavaScript numbers are modelled by the
  integers and \<open>NaN\<close>. What a value inherits (from its prototype chain, or from the
  wrapper of a primitive) is not decided by the program but by the runtime it runs in,
  and is a parameter of the model; see \<open>runtime\<close> below.
\<close>

datatype jsval =
    VUndefined
  | VNull
  | VBool bool
  | VNum int
  | VNaN
  | VStr string
  | VObj nat "(string \<times> jsval) list"
  | VFunction nat

type_synonym obj = "(string \<times> jsval) list"

text \<open>\<open>x === y\<close>: value equality on primitives (\<open>NaN\<close> differs from itself), identity on objects.\<close>

fun strict_eq :: "jsval \<Rightarrow> jsval \<Rightarrow> bool" where
  "strict_eq VUndefined VUndefined = True"
| "strict_eq VNull VNull = True"
| "strict_eq (VBool a) (VBool b) = (a = b)"
| "strict_eq (VNum a) (VNum b) = (a = b)"
| "strict_eq (VStr a) (VStr b) = (a = b)"
| "strict_eq (VObj r _) (VObj r' _) = (r = r')"
| "strict_eq (VFunction r) (VFunction r') = (r = r')"
| "strict_eq _ _ = False"

text \<open>\<open>Boolean(x)\<close>.\<close>

fun truthy :: "jsval \<Rightarrow> bool" where
  "truthy VUndefined = False"
| "truthy VNull = False"
| "truthy (VBool b) = b"
| "truthy (VNum n) = (n \<noteq> 0)"
| "truthy VNaN = False"
| "truthy (VStr s) = (s \<noteq> [])"
| "truthy (VObj _ _) = True"
| "truthy (VFunction _) = True"

text \<open>The own property \<open>k\<close> of an object: \<open>undefined\<close> when it has none of that name.\<close>

fun get_field :: "obj \<Rightarrow> string \<Rightarrow> jsval" where
  "get_field [] k = VUndefined"
| "get_field ((k', v) # fs) k = (if k' = k then v else get_field fs k)"

text \<open>Defining a property: an existing one keeps its place, a new one comes last.\<close>

fun set_field :: "string \<Rightarrow> jsval \<Rightarrow> obj \<Rightarrow> obj" where
  "set_field k v [] = [(k, v)]"
| "set_field k v ((k', v') # fs) =
     (if k' = k then (k, v) # fs else (k', v') # set_field k v fs)"

text \<open>\<open>...src\<close> inside an object literal under construction: every own property of
  \<open>src\<close> is defined on the target, in order.\<close>

fun spread :: "obj \<Rightarrow> obj \<Rightarrow> obj" where
  "spread target [] = target"
| "spread target ((k, v) # src) = spread (set_field k v target) src"

section \<open>Updates and the reducer of \<open>scan\<close>\<close>

text \<open>
  \<open>type StateUpdate = Partial<T> | UpdateFunction\<close>. A function update may throw; what
  it does when invoked is a function from the state to an error or a partial.
\<close>

datatype js_error = TypeError | Thrown string

datatype update = UFunction "obj \<Rightarrow> js_error + obj" | UPartial obj

text \<open>
  \<open>function isFunction(update) { return Boolean((update as Function).apply) }\<close>:
  every function inherits \<open>apply\<close>; on an object the test reads its property \<open>apply\<close>
  (a partial is an object literal, the properties listed for it are those it has, and
  in every standard runtime \<open>Object.prototype\<close> has no property \<open>apply\<close>).
\<close>

fun isFunction :: "update \<Rightarrow> bool" where
  "isFunction (UFunction f) = True"
| "isFunction (UPartial p) = truthy (get_field p ''apply'')"

text \<open>\<open>update(state)\<close>: calling a value that is not a function raises a \<open>TypeError\<close>.\<close>

fun call_update :: "update \<Rightarrow> obj \<Rightarrow> js_error + obj" where
  "call_update (UFunction f) state = f state"
| "call_update (UPartial p) state = Inl TypeError"

text \<open>The own enumerable properties of an update that is spread as it is (a function has none).\<close>

fun own_fields :: "update \<Rightarrow> obj" where
  "own_fields (UPartial p) = p"
| "own_fields (UFunction f) = []"

text \<open>
  The reducer given to \<open>scan\<close>:
  \<^verbatim>\<open>(state, update) => ({ ...state, ...(isFunction(update) ? update(state) : update) })\<close>

  Its conditional expression \<open>isFunction(update) ? update(state) : update\<close> has the
  one call site of the reducer. \<open>applied\<close> gives what evaluating it does: the calls
  \<open>update(state)\<close> it makes, each by its argument, and its value or the exception.
\<close>

definition applied :: "obj \<Rightarrow> update \<Rightarrow> obj list \<times> (js_error + obj)" where
  "applied state u =
     (if isFunction u then ([state], call_update u state) else ([], Inr (own_fields u)))"

definition shallow_merge :: "obj \<Rightarrow> obj \<Rightarrow> obj" where
  "shallow_merge state part = spread (spread [] state) part"

definition accumulator :: "obj \<Rightarrow> update \<Rightarrow> js_error + obj" where
  "accumulator state u =
     (case snd (applied state u) of
        Inl e \<Rightarrow> Inl e
      | Inr part \<Rightarrow> Inr (shallow_merge state part))"

text \<open>The calls of the update that one evaluation of the reducer makes.\<close>

definition reducer_calls :: "obj \<Rightarrow> update \<Rightarrow> obj list" where
  "reducer_calls state u = fst (applied state u)"

section \<open>The operators of a path view\<close>

text \<open>
  A property read \<open>x[k]\<close> yields the own property \<open>k\<close> of \<open>x\<close> when there is one, and
  otherwise what \<open>x\<close> inherits under that name: \<open>toString\<close> and \<open>constructor\<close> from
  \<open>Object.prototype\<close>, \<open>length\<close> on a string, and so on. What is inherited belongs to
  the JavaScript runtime, not to the program, so it is a parameter: \<open>literal_inherited\<close>
  for an object built by an object literal (every snapshot is one: the reducer builds
  it), \<open>inherited\<close> for any other value. Only \<open>pluck\<close> reads properties by names
  that the client chooses, so only \<open>pluck\<close> depends on the parameter.
\<close>

record runtime =
  literal_inherited :: "string \<Rightarrow> jsval"
  inherited :: "jsval \<Rightarrow> string \<Rightarrow> jsval"

text \<open>\<open>s[k]\<close> on a snapshot.\<close>

definition get_member :: "runtime \<Rightarrow> obj \<Rightarrow> string \<Rightarrow> jsval" where
  "get_member rt s k = (if k \<in> fst ` set s then get_field s k else literal_inherited rt k)"

text \<open>
  \<open>currentProp != null ? currentProp[props[i]] : undefined\<close>, the read that \<open>pluck\<close>
  makes on the value it has reached.
\<close>

fun get_prop :: "runtime \<Rightarrow> jsval \<Rightarrow> string \<Rightarrow> jsval" where
  "get_prop rt (VObj r fs) k =
     (if k \<in> fst ` set fs then get_field fs k else inherited rt (VObj r fs) k)"
| "get_prop rt VNull k = VUndefined"
| "get_prop rt VUndefined k = VUndefined"
| "get_prop rt v k = inherited rt v k"

text \<open>
  \<open>pluck(...path)\<close> walks the properties in order and yields \<open>undefined\<close> as soon as
  one cannot be resolved. This follows the documentation of the operator (``if a
  property can't be resolved, it will return undefined for that value''); reading a
  property of \<open>null\<close> or \<open>undefined\<close> counts as not resolved.
  \<open>getState\<close> applies the operator to a non-empty path only.
\<close>

fun plucker :: "runtime \<Rightarrow> string list \<Rightarrow> jsval \<Rightarrow> jsval" where
  "plucker rt [] cur = cur"
| "plucker rt (p # ps) cur =
     (let v = get_prop rt cur p in if v = VUndefined then VUndefined else plucker rt ps v)"

fun pluck :: "runtime \<Rightarrow> string list \<Rightarrow> obj \<Rightarrow> jsval" where
  "pluck rt [] s = VUndefined"
| "pluck rt (p # ps) s =
     (let v = get_member rt s p in if v = VUndefined then VUndefined else plucker rt ps v)"

text \<open>
  \<open>distinctUntilChanged()\<close> keeps the last value it let through (none at first) and
  lets a value through unless it is \<open>===\<close> to that one.
\<close>

fun distinctUntilChanged :: "jsval option \<Rightarrow> jsval \<Rightarrow> bool" where
  "distinctUntilChanged None x = True"
| "distinctUntilChanged (Some k) x = (\<not> strict_eq k x)"

text \<open>\<open>filter((value) => value !== null && value !== undefined)\<close>\<close>

definition present :: "jsval \<Rightarrow> bool" where
  "present v = (v \<noteq> VNull \<and> v \<noteq> VUndefined)"

section \<open>The container\<close>

text \<open>
  \<open>setupState\<close> builds one pipeline:
  \<^verbatim>\<open>
  const stateUpdate$ = new Subject<StateUpdate>();
  function setState(update) { stateUpdate$.next(update); }
  const state$ = stateUpdate$.pipe(scan(reducer, initialState), shareReplay(1));
  function getState(...path) {
      return Boolean(path.length)
          ? state$.pipe(pluck(...path), distinctUntilChanged(),
                        filter(value => value !== null && value !== undefined),
                        shareReplay(1))
          : state$;
  }
  \<close>
  The state of that pipeline is written out. \<open>shareReplay(1)\<close> subscribes to its source
  when its first observer arrives, and again when an observer arrives after the source
  has failed; it holds a replay buffer of one value and multicasts to its observers in
  the order they subscribed. The subject \<open>stateUpdate$\<close> keeps nothing: an update sent
  while nothing is subscribed to it is dropped. \<open>scan\<close> starts from its seed, which it
  does not emit, and turns an exception of its reducer into an error notification.
  Observers are passive: they record the notifications they get and never unsubscribe.
\<close>

datatype event = NextState obj | NextValue jsval | ErrorEv js_error

datatype handle = FullState | PathView nat

datatype sink = Observer nat | ViewChain nat

text \<open>
  One record per call \<open>getState(...path)\<close> with a non-empty path: the state of that
  call's own \<open>distinctUntilChanged\<close> and \<open>shareReplay(1)\<close>.
\<close>

record view =
  v_path :: "string list"
  v_live :: bool
  v_key :: "jsval option"
  v_buffer :: "jsval option"
  v_observers :: "nat list"

text \<open>
  \<open>live\<close>: \<open>state$\<close> is subscribed to its source; then \<open>seed\<close> is the accumulator of
  \<open>scan\<close>, \<open>buffer\<close> the replay buffer and \<open>sinks\<close> the observers of \<open>state$\<close>: outside
  observers and the chains of path views. \<open>observers\<close> lists every outside observer
  with the observable it subscribed to and the notifications it has received.
  \<open>env\<close> is the runtime the container runs in. \<open>trace\<close> and \<open>invoked\<close> are history
  variables, never read by an operation: what \<open>scan\<close> has emitted, and the arguments
  of the calls of update functions that the reducer has made.
\<close>

record container =
  env :: runtime
  initialState :: obj
  live :: bool
  seed :: obj
  buffer :: "obj option"
  sinks :: "sink list"
  views :: "view list"
  observers :: "(handle \<times> event list) list"
  trace :: "event list"
  invoked :: "obj list"

definition tell :: "event \<Rightarrow> nat \<Rightarrow> (handle \<times> event list) list \<Rightarrow> (handle \<times> event list) list" where
  "tell e i os = (if i < length os then os[i := (fst (os ! i), snd (os ! i) @ [e])] else os)"

definition notify :: "event \<Rightarrow> nat list \<Rightarrow> (handle \<times> event list) list \<Rightarrow> (handle \<times> event list) list" where
  "notify e js os = fold (tell e) js os"

text \<open>A snapshot enters the chain of a view: pluck, distinctUntilChanged, filter, shareReplay(1).\<close>

definition view_next ::
  "runtime \<Rightarrow> obj \<Rightarrow> view \<Rightarrow> (handle \<times> event list) list \<Rightarrow> view \<times> (handle \<times> event list) list" where
  "view_next rt s v os =
     (let x = pluck rt (v_path v) s in
      if distinctUntilChanged (v_key v) x then
        (if present x then
           (v\<lparr>v_key := Some x, v_buffer := Some x\<rparr>, notify (NextValue x) (v_observers v) os)
         else (v\<lparr>v_key := Some x\<rparr>, os))
      else (v, os))"

text \<open>An error passes the chain unchanged and ends the view's subscription.\<close>

definition view_error :: "js_error \<Rightarrow> view \<Rightarrow> (handle \<times> event list) list \<Rightarrow> view \<times> (handle \<times> event list) list" where
  "view_error e v os = (v\<lparr>v_live := False, v_observers := []\<rparr>, notify (ErrorEv e) (v_observers v) os)"

fun deliver :: "obj \<Rightarrow> sink \<Rightarrow> container \<Rightarrow> container" where
  "deliver s (Observer i) c = c\<lparr>observers := tell (NextState s) i (observers c)\<rparr>"
| "deliver s (ViewChain n) c =
     (if n < length (views c) then
        (let r = view_next (env c) s (views c ! n) (observers c)
         in c\<lparr>views := (views c)[n := fst r], observers := snd r\<rparr>)
      else c)"

fun deliver_error :: "js_error \<Rightarrow> sink \<Rightarrow> container \<Rightarrow> container" where
  "deliver_error e (Observer i) c = c\<lparr>observers := tell (ErrorEv e) i (observers c)\<rparr>"
| "deliver_error e (ViewChain n) c =
     (if n < length (views c) then
        (let r = view_error e (views c ! n) (observers c)
         in c\<lparr>views := (views c)[n := fst r], observers := snd r\<rparr>)
      else c)"

text \<open>\<open>state$\<close> emits a snapshot: it is buffered, then handed to every sink in turn.\<close>

definition publish :: "obj \<Rightarrow> container \<Rightarrow> container" where
  "publish s c =
     fold (deliver s) (sinks c) (c\<lparr>buffer := Some s, trace := trace c @ [NextState s]\<rparr>)"

text \<open>\<open>scan\<close> caught an exception of the reducer: every sink gets the error, and
  \<open>state$\<close> loses its subscription to the subject.\<close>

definition terminate :: "js_error \<Rightarrow> container \<Rightarrow> container" where
  "terminate e c =
     fold (deliver_error e) (sinks c)
       (c\<lparr>live := False, sinks := [], trace := trace c @ [ErrorEv e]\<rparr>)"

text \<open>The history of the calls of update functions grows by those of one evaluation of the reducer.\<close>

definition note_calls :: "update \<Rightarrow> container \<Rightarrow> container" where
  "note_calls u c = c\<lparr>invoked := invoked c @ reducer_calls (seed c) u\<rparr>"

text \<open>
  \<open>setState(update)\<close>, that is \<open>stateUpdate$.next(update)\<close>: when \<open>scan\<close> is subscribed
  to the subject, it evaluates the reducer on its accumulator and the update, within
  the call.
\<close>

definition setState :: "update \<Rightarrow> container \<Rightarrow> container" where
  "setState u c =
     (if live c then
        (case accumulator (seed c) u of
           Inr s \<Rightarrow> publish s ((note_calls u c)\<lparr>seed := s\<rparr>)
         | Inl e \<Rightarrow> terminate e (note_calls u c))
      else c)"

text \<open>A sink subscribes to \<open>state$\<close>.\<close>

definition subscribe_state :: "sink \<Rightarrow> container \<Rightarrow> container" where
  "subscribe_state k c =
     (if live c then
        (let c' = (case buffer c of None \<Rightarrow> c | Some b \<Rightarrow> deliver b k c)
         in c'\<lparr>sinks := sinks c' @ [k]\<rparr>)
      else c\<lparr>live := True, seed := initialState c, buffer := None, sinks := [k]\<rparr>)"

text \<open>
  An outside observer subscribes to what \<open>getState\<close> returned; the result is its index
  in \<open>observers\<close>. A handle that no call of \<open>getState\<close> returned denotes nothing.
\<close>

definition subscribe :: "handle \<Rightarrow> container \<Rightarrow> nat \<times> container" where
  "subscribe h c =
     (let i = length (observers c);
          c0 = c\<lparr>observers := observers c @ [(h, [])]\<rparr>
      in case h of
           FullState \<Rightarrow> (i, subscribe_state (Observer i) c0)
         | PathView n \<Rightarrow>
             (if n < length (views c0) then
                (let v = views c0 ! n in
                 if v_live v then
                   (i, c0\<lparr>views := (views c0)[n := v\<lparr>v_observers := v_observers v @ [i]\<rparr>],
                          observers := (case v_buffer v of
                                          None \<Rightarrow> observers c0
                                        | Some x \<Rightarrow> tell (NextValue x) i (observers c0))\<rparr>)
                 else
                   (i, subscribe_state (ViewChain n)
                         (c0\<lparr>views := (views c0)[n := v\<lparr>v_live := True, v_key := None,
                                 v_buffer := None, v_observers := [i]\<rparr>]\<rparr>)))
              else (i, c0)))"

definition getState :: "string list \<Rightarrow> container \<Rightarrow> handle \<times> container" where
  "getState path c =
     (if path \<noteq> [] then
        (PathView (length (views c)),
         c\<lparr>views := views c @ [\<lparr>v_path = path, v_live = False, v_key = None,
                                 v_buffer = None, v_observers = []\<rparr>]\<rparr>)
      else (FullState, c))"

text \<open>\<open>setupState(initialState)\<close>, in a runtime.\<close>

definition setupState :: "runtime \<Rightarrow> obj \<Rightarrow> container" where
  "setupState rt init =
     \<lparr>env = rt, initialState = init, live = False, seed = init, buffer = None, sinks = [],
      views = [], observers = [], trace = [], invoked = []\<rparr>"

text \<open>A client of the container is a sequence of calls.\<close>

datatype call = SetState update | GetState "string list" | Subscribe handle

fun step :: "call \<Rightarrow> container \<Rightarrow> container" where
  "step (SetState u) c = setState u c"
| "step (GetState p) c = snd (getState p c)"
| "step (Subscribe h) c = snd (subscribe h c)"

definition run :: "call list \<Rightarrow> container \<Rightarrow> container" where
  "run cs c = fold step cs c"

definition logs :: "container \<Rightarrow> nat \<Rightarrow> event list" where
  "logs c i = snd (observers c ! i)"

section \<open>Invariants and specification vocabulary\<close>

text \<open>
  The invariant of the containers a client can reach: a sink is subscribed once; only a
  live \<open>state$\<close> has sinks; a view is live exactly when its chain is a sink of
  \<open>state$\<close>; an observer is listed where it subscribed and nowhere else.
\<close>

definition wf :: "container \<Rightarrow> bool" where
  "wf c \<longleftrightarrow>
     distinct (sinks c) \<and>
     (\<not> live c \<longrightarrow> sinks c = []) \<and>
     (\<forall>i. Observer i \<in> set (sinks c) \<longrightarrow>
          i < length (observers c) \<and> fst (observers c ! i) = FullState) \<and>
     (\<forall>n. ViewChain n \<in> set (sinks c) \<longrightarrow> n < length (views c) \<and> v_live (views c ! n)) \<and>
     (\<forall>n < length (views c).
        (v_live (views c ! n) \<longrightarrow> ViewChain n \<in> set (sinks c)) \<and>
        (\<not> v_live (views c ! n) \<longrightarrow> v_observers (views c ! n) = []) \<and>
        distinct (v_observers (views c ! n)) \<and>
        (\<forall>i \<in> set (v_observers (views c ! n)).
           i < length (observers c) \<and> fst (observers c ! i) = PathView n))"

text \<open>What the invariant reads of a container.\<close>

definition same_shape :: "container \<Rightarrow> container \<Rightarrow> bool" where
  "same_shape c c' \<longleftrightarrow>
     live c' = live c \<and> sinks c' = sinks c \<and>
     map fst (observers c') = map fst (observers c) \<and>
     map v_live (views c') = map v_live (views c) \<and>
     map v_observers (views c') = map v_observers (views c) \<and>
     map v_path (views c') = map v_path (views c)"

text \<open>An error notification.\<close>

fun failed :: "event \<Rightarrow> bool" where
  "failed (ErrorEv e) = True"
| "failed _ = False"

text \<open>The most recent element of the published sequence, if there is one.\<close>

definition latest :: "event list \<Rightarrow> event list" where
  "latest t = (if t = [] then [] else [last t])"

text \<open>What a new observer of \<open>state$\<close> is handed when it subscribes.\<close>

definition replay :: "container \<Rightarrow> event list" where
  "replay c = (if live c then (case buffer c of None \<Rightarrow> [] | Some b \<Rightarrow> [NextState b]) else [])"

text \<open>
  The fold of the specification, \<open>S\<^sub>n = merge(S\<^sub>n\<^sub>-\<^sub>1, resolve(update\<^sub>n, S\<^sub>n\<^sub>-\<^sub>1))\<close>, over
  updates that are partials or functions returning a partial. (A function that throws
  resolves to nothing here; the fold is only compared with the program on updates
  that return.)
\<close>

fun resolve :: "update \<Rightarrow> obj \<Rightarrow> obj" where
  "resolve (UPartial p) s = p"
| "resolve (UFunction f) s = (case f s of Inr p \<Rightarrow> p | Inl e \<Rightarrow> [])"

definition left_fold :: "obj \<Rightarrow> update list \<Rightarrow> obj" where
  "left_fold s us = foldl (\<lambda>s u. shallow_merge s (resolve u s)) s us"

text \<open>The running values of that fold.\<close>

fun snapshots :: "obj \<Rightarrow> update list \<Rightarrow> obj list" where
  "snapshots s [] = []"
| "snapshots s (u # us) = shallow_merge s (resolve u s) # snapshots (shallow_merge s (resolve u s)) us"

text \<open>
  An update the reducer can process at a state: a function that returns there, or a
  partial that \<open>isFunction\<close> does not take for a function.
\<close>

fun returns :: "update \<Rightarrow> obj \<Rightarrow> bool" where
  "returns (UFunction f) s = (case f s of Inr p \<Rightarrow> True | Inl e \<Rightarrow> False)"
| "returns (UPartial p) s = (\<not> truthy (get_field p ''apply''))"

fun accepted :: "obj \<Rightarrow> update list \<Rightarrow> bool" where
  "accepted s [] = True"
| "accepted s (u # us) = (returns u s \<and> accepted (shallow_merge s (resolve u s)) us)"

text \<open>
  The invocations of update functions that the specification asks for: one for each
  update that is a function, in order, on the snapshot that results from all the updates
  before it.
\<close>

fun invocations :: "obj \<Rightarrow> update list \<Rightarrow> obj list" where
  "invocations s [] = []"
| "invocations s (UFunction f # us) =
     s # invocations (shallow_merge s (resolve (UFunction f) s)) us"
| "invocations s (UPartial p # us) = invocations (shallow_merge s (resolve (UPartial p) s)) us"

text \<open>The updates that a sequence of calls submits, in order.\<close>

fun updates_of :: "call list \<Rightarrow> update list" where
  "updates_of [] = []"
| "updates_of (SetState u # cs) = u # updates_of cs"
| "updates_of (GetState p # cs) = updates_of cs"
| "updates_of (Subscribe h # cs) = updates_of cs"

text \<open>
  The snapshot that \<open>state$\<close> published last, if the published sequence has
  one and did not end with an error after it.
\<close>

fun current_of :: "event \<Rightarrow> obj option" where
  "current_of (NextState s) = Some s"
| "current_of _ = None"

definition current :: "event list \<Rightarrow> obj option" where
  "current t = (if t = [] then None else current_of (last t))"

text \<open>
  The distinct-change stage of every live view holds the candidate it extracted from
  the snapshot in the replay buffer of \<open>state$\<close>, or one that is \<open>===\<close> to it: a
  candidate passes the stage unless it is \<open>===\<close> to the extraction of that snapshot.
\<close>

definition keyed :: "container \<Rightarrow> bool" where
  "keyed c \<longleftrightarrow>
     (\<forall>n<length (views c). v_live (views c ! n) \<longrightarrow>
        (\<forall>x. distinctUntilChanged (v_key (views c ! n)) x =
              (case buffer c of
                 None \<Rightarrow> True
               | Some b \<Rightarrow> \<not> strict_eq (pluck (env c) (v_path (views c ! n)) b) x)))"

text \<open>
  A runtime for the examples. Of what a standard runtime lets values inherit it has the
  functions \<open>Object.prototype.toString\<close> and \<open>Object\<close> (under \<open>constructor\<close>) on objects
  and the \<open>length\<close> of a string; it stands for every runtime that agrees with it on
  the names an example reads.
\<close>

definition object_prototype :: "string \<Rightarrow> jsval" where
  "object_prototype k =
     (if k = ''toString'' then VFunction 1
      else if k = ''constructor'' then VFunction 2
      else VUndefined)"

definition example_runtime :: runtime where
  "example_runtime =
     \<lparr>literal_inherited = object_prototype,
      inherited = (\<lambda>v k. case v of
                      VObj r fs \<Rightarrow> object_prototype k
                    | VStr s \<Rightarrow> (if k = ''length'' then VNum (int (length s)) else VUndefined)
                    | _ \<Rightarrow> VUndefined)\<rparr>"

text \<open>The update \<open>s => ({v: s.v + 1})\<close>, on states whose \<open>v\<close> is a number.\<close>

definition counter_update :: update where
  "counter_update =
     UFunction (\<lambda>s. Inr [(''v'', case get_field s ''v'' of VNum n \<Rightarrow> VNum (n + 1) | _ \<Rightarrow> VNaN)])"

text \<open>
  Where the notifications of a view's observers come from: a value is the extraction,
  at the view's path, of a snapshot that was published, and it is neither \<open>null\<close> nor
  \<open>undefined\<close>; an error is one that \<open>state$\<close> raised. The same holds of the replay
  buffers.
\<close>

fun extracted :: "runtime \<Rightarrow> string list \<Rightarrow> jsval \<Rightarrow> event \<Rightarrow> bool" where
  "extracted rt p x (NextState s) = (pluck rt p s = x)"
| "extracted rt p x _ = False"

fun ok_event :: "runtime \<Rightarrow> event list \<Rightarrow> string list \<Rightarrow> event \<Rightarrow> bool" where
  "ok_event rt T p (NextValue x) = (present x \<and> list_ex (extracted rt p x) T)"
| "ok_event rt T p (ErrorEv e) = (ErrorEv e \<in> set T)"
| "ok_event rt T p (NextState s) = False"

definition sound_at :: "runtime \<Rightarrow> event list \<Rightarrow> container \<Rightarrow> bool" where
  "sound_at rt T c \<longleftrightarrow>
     (\<forall>i<length (observers c). \<forall>n. fst (observers c ! i) = PathView n \<longrightarrow>
        (\<forall>ev \<in> set (snd (observers c ! i)).
           n < length (views c) \<and> ok_event rt T (v_path (views c ! n)) ev)) \<and>
     (\<forall>n<length (views c). \<forall>x. v_buffer (views c ! n) = Some x \<longrightarrow>
        ok_event rt T (v_path (views c ! n)) (NextValue x)) \<and>
     (\<forall>b. buffer c = Some b \<longrightarrow> NextState b \<in> set T)"

text \<open>The observers of a view are listed as its subscribers.\<close>

definition typed :: "container \<Rightarrow> bool" where
  "typed c \<longleftrightarrow>
     (\<forall>n<length (views c). \<forall>j \<in> set (v_observers (views c ! n)).
        j < length (observers c) \<and> fst (observers c ! j) = PathView n)"

section \<open>Values and notifications\<close>

lemma strict_eq_sym: "strict_eq a b \<Longrightarrow> strict_eq b a"
  by (cases a; cases b) auto

lemma strict_eq_trans: "strict_eq a b \<Longrightarrow> strict_eq b c \<Longrightarrow> strict_eq a c"
  by (cases a; cases b; cases c) auto

lemma get_field_set_field:
  "get_field (set_field k v fs) k' = (if k' = k then v else get_field fs k')"
  by (induction fs) auto

lemma get_field_absent: "k \<notin> fst ` set fs \<Longrightarrow> get_field fs k = VUndefined"
  by (induction fs) auto

lemma get_field_spread:
  "distinct (map fst src) \<Longrightarrow>
   get_field (spread t src) k = (if k \<in> fst ` set src then get_field src k else get_field t k)"
proof (induction src arbitrary: t)
  case Nil
  then show ?case by simp
next
  case (Cons a src)
  obtain k' v where a: "a = (k', v)" by (cases a)
  with Cons.prems have d: "distinct (map fst src)" and n: "k' \<notin> fst ` set src" by auto
  show ?case using Cons.IH [OF d, of "set_field k' v t"] n a
    by (auto simp: get_field_set_field)
qed

lemma get_field_shallow_merge:
  "distinct (map fst s) \<Longrightarrow> distinct (map fst p) \<Longrightarrow>
   get_field (shallow_merge s p) k = (if k \<in> fst ` set p then get_field p k else get_field s k)"
  by (simp add: shallow_merge_def get_field_spread get_field_absent)

lemma length_tell [simp]: "length (tell e i os) = length os"
  by (simp add: tell_def)

lemma fst_tell [simp]: "map fst (tell e i os) = map fst os"
  by (auto simp: tell_def map_update list_update_same_conv)

lemma snd_tell:
  "j < length os \<Longrightarrow> snd (tell e i os ! j) = (if j = i then snd (os ! j) @ [e] else snd (os ! j))"
  by (simp add: tell_def)

lemma length_notify [simp]: "length (notify e js os) = length os"
  unfolding notify_def by (induction js arbitrary: os) auto

lemma fst_notify [simp]: "map fst (notify e js os) = map fst os"
  unfolding notify_def by (induction js arbitrary: os) auto

lemma notify_other: "j \<notin> set js \<Longrightarrow> notify e js os ! j = os ! j"
  unfolding notify_def by (induction js arbitrary: os) (auto simp: tell_def)

lemma notify_member:
  "distinct js \<Longrightarrow> j \<in> set js \<Longrightarrow> j < length os \<Longrightarrow>
   snd (notify e js os ! j) = snd (os ! j) @ [e]"
  unfolding notify_def
proof (induction js arbitrary: os)
  case Nil
  then show ?case by simp
next
  case (Cons a js)
  show ?case
  proof (cases "j = a")
    case True
    with Cons.prems have "j \<notin> set js" by simp
    then have "fold (tell e) js (tell e a os) ! j = tell e a os ! j"
      using notify_other [of j js e "tell e a os"] by (simp add: notify_def)
    with True Cons.prems show ?thesis by (simp add: snd_tell)
  next
    case False
    with Cons.prems have "j \<in> set js" "distinct js" by auto
    from Cons.IH [OF this(2) this(1), of "tell e a os"] Cons.prems False
    show ?thesis by (simp add: snd_tell)
  qed
qed

lemma notify_events:
  "j < length os \<Longrightarrow> set (snd (notify e js os ! j)) \<subseteq> insert e (set (snd (os ! j)))"
  unfolding notify_def
proof (induction js arbitrary: os)
  case Nil
  then show ?case by auto
next
  case (Cons a js)
  have "set (snd (fold (tell e) js (tell e a os) ! j)) \<subseteq> insert e (set (snd (tell e a os ! j)))"
    using Cons.IH [of "tell e a os"] Cons.prems by simp
  moreover have "set (snd (tell e a os ! j)) \<subseteq> insert e (set (snd (os ! j)))"
    using Cons.prems by (auto simp: snd_tell)
  ultimately show ?case by auto
qed


lemma same_shape_refl [simp]: "same_shape c c"
  by (simp add: same_shape_def)

lemma same_shape_trans: "same_shape a b \<Longrightarrow> same_shape b c \<Longrightarrow> same_shape a c"
  by (simp add: same_shape_def)

lemma same_shape_lengths:
  assumes "same_shape c c'"
  shows "length (observers c') = length (observers c)" "length (views c') = length (views c)"
  using assms map_eq_imp_length_eq unfolding same_shape_def by blast+

lemma same_shape_nth:
  assumes "same_shape c c'"
  shows "i < length (observers c) \<Longrightarrow> fst (observers c' ! i) = fst (observers c ! i)"
    and "n < length (views c) \<Longrightarrow> v_live (views c' ! n) = v_live (views c ! n)"
    and "n < length (views c) \<Longrightarrow> v_observers (views c' ! n) = v_observers (views c ! n)"
    and "n < length (views c) \<Longrightarrow> v_path (views c' ! n) = v_path (views c ! n)"
proof -
  note l = same_shape_lengths [OF assms]
  show "i < length (observers c) \<Longrightarrow> fst (observers c' ! i) = fst (observers c ! i)"
    using assms l nth_map [of i "observers c'" fst] nth_map [of i "observers c" fst]
    by (simp add: same_shape_def)
  show "n < length (views c) \<Longrightarrow> v_live (views c' ! n) = v_live (views c ! n)"
    using assms l nth_map [of n "views c'" v_live] nth_map [of n "views c" v_live]
    by (simp add: same_shape_def)
  show "n < length (views c) \<Longrightarrow> v_observers (views c' ! n) = v_observers (views c ! n)"
    using assms l nth_map [of n "views c'" v_observers] nth_map [of n "views c" v_observers]
    by (simp add: same_shape_def)
  show "n < length (views c) \<Longrightarrow> v_path (views c' ! n) = v_path (views c ! n)"
    using assms l nth_map [of n "views c'" v_path] nth_map [of n "views c" v_path]
    by (simp add: same_shape_def)
qed

lemma wf_same_shape:
  assumes "same_shape c c'" "wf c"
  shows "wf c'"
proof -
  note l = same_shape_lengths [OF assms(1)]
  note n = same_shape_nth [OF assms(1)]
  have s: "sinks c' = sinks c" "live c' = live c" using assms(1) by (simp_all add: same_shape_def)
  show ?thesis
    using assms(2) unfolding wf_def s l
    by (auto simp: n)
qed

lemma view_next_shape [simp]:
  "v_path (fst (view_next rt s v os)) = v_path v"
  "v_live (fst (view_next rt s v os)) = v_live v"
  "v_observers (fst (view_next rt s v os)) = v_observers v"
  "length (snd (view_next rt s v os)) = length os"
  "map fst (snd (view_next rt s v os)) = map fst os"
  by (simp_all add: view_next_def Let_def)

lemma view_next_other:
  "j \<notin> set (v_observers v) \<Longrightarrow> snd (view_next rt s v os) ! j = os ! j"
  by (simp add: view_next_def Let_def notify_other)

lemma deliver_fields [simp]:
  "initialState (deliver s k c) = initialState c"
  "env (deliver s k c) = env c"
  "invoked (deliver s k c) = invoked c"
  "live (deliver s k c) = live c"
  "seed (deliver s k c) = seed c"
  "buffer (deliver s k c) = buffer c"
  "sinks (deliver s k c) = sinks c"
  "trace (deliver s k c) = trace c"
  "length (views (deliver s k c)) = length (views c)"
  "length (observers (deliver s k c)) = length (observers c)"
  "map fst (observers (deliver s k c)) = map fst (observers c)"
  by (cases k; simp add: Let_def)+

lemma deliver_views [simp]:
  "map v_live (views (deliver s k c)) = map v_live (views c)"
  "map v_observers (views (deliver s k c)) = map v_observers (views c)"
  "map v_path (views (deliver s k c)) = map v_path (views c)"
  by (cases k; auto simp: Let_def map_update list_update_same_conv)+

lemma deliver_shape [simp]: "same_shape c (deliver s k c)"
  by (simp add: same_shape_def)

lemma fold_deliver_fields [simp]:
  "initialState (fold (deliver s) ks c) = initialState c"
  "env (fold (deliver s) ks c) = env c"
  "invoked (fold (deliver s) ks c) = invoked c"
  "live (fold (deliver s) ks c) = live c"
  "seed (fold (deliver s) ks c) = seed c"
  "buffer (fold (deliver s) ks c) = buffer c"
  "sinks (fold (deliver s) ks c) = sinks c"
  "trace (fold (deliver s) ks c) = trace c"
  "length (views (fold (deliver s) ks c)) = length (views c)"
  "length (observers (fold (deliver s) ks c)) = length (observers c)"
  by (induction ks arbitrary: c; simp)+

lemma fold_deliver_shape [simp]: "same_shape c (fold (deliver s) ks c)"
proof (induction ks arbitrary: c)
  case Nil
  then show ?case by simp
next
  case (Cons k ks)
  show ?case using same_shape_trans [OF deliver_shape Cons.IH] by simp
qed


lemma publish_fields [simp]:
  "initialState (publish s c) = initialState c"
  "env (publish s c) = env c"
  "invoked (publish s c) = invoked c"
  "live (publish s c) = live c"
  "seed (publish s c) = seed c"
  "buffer (publish s c) = Some s"
  "sinks (publish s c) = sinks c"
  "trace (publish s c) = trace c @ [NextState s]"
  "length (views (publish s c)) = length (views c)"
  "length (observers (publish s c)) = length (observers c)"
  by (simp_all add: publish_def)

lemma publish_shape: "same_shape c (publish s c)"
  using fold_deliver_shape [of "c\<lparr>buffer := Some s, trace := trace c @ [NextState s]\<rparr>" s "sinks c"]
  by (simp add: publish_def same_shape_def)

lemma deliver_error_fields [simp]:
  "initialState (deliver_error e k c) = initialState c"
  "env (deliver_error e k c) = env c"
  "invoked (deliver_error e k c) = invoked c"
  "live (deliver_error e k c) = live c"
  "seed (deliver_error e k c) = seed c"
  "buffer (deliver_error e k c) = buffer c"
  "sinks (deliver_error e k c) = sinks c"
  "trace (deliver_error e k c) = trace c"
  "length (views (deliver_error e k c)) = length (views c)"
  "length (observers (deliver_error e k c)) = length (observers c)"
  "map fst (observers (deliver_error e k c)) = map fst (observers c)"
  "map v_path (views (deliver_error e k c)) = map v_path (views c)"
  by (cases k; auto simp: Let_def view_error_def map_update list_update_same_conv)+

lemma deliver_error_view:
  "m < length (views c) \<Longrightarrow>
   v_live (views (deliver_error e k c) ! m) = (v_live (views c ! m) \<and> k \<noteq> ViewChain m)"
  "m < length (views c) \<Longrightarrow>
   v_observers (views (deliver_error e k c) ! m) =
     (if k = ViewChain m then [] else v_observers (views c ! m))"
  by (cases k; auto simp: Let_def view_error_def nth_list_update)+

lemma fold_deliver_error_fields [simp]:
  "initialState (fold (deliver_error e) ks c) = initialState c"
  "env (fold (deliver_error e) ks c) = env c"
  "invoked (fold (deliver_error e) ks c) = invoked c"
  "live (fold (deliver_error e) ks c) = live c"
  "seed (fold (deliver_error e) ks c) = seed c"
  "buffer (fold (deliver_error e) ks c) = buffer c"
  "sinks (fold (deliver_error e) ks c) = sinks c"
  "trace (fold (deliver_error e) ks c) = trace c"
  "length (views (fold (deliver_error e) ks c)) = length (views c)"
  "length (observers (fold (deliver_error e) ks c)) = length (observers c)"
  "map fst (observers (fold (deliver_error e) ks c)) = map fst (observers c)"
  "map v_path (views (fold (deliver_error e) ks c)) = map v_path (views c)"
  by (induction ks arbitrary: c; simp)+

lemma fold_deliver_error_live:
  "m < length (views c) \<Longrightarrow>
   v_live (views (fold (deliver_error e) ks c) ! m) =
     (v_live (views c ! m) \<and> ViewChain m \<notin> set ks)"
proof (induction ks arbitrary: c)
  case Nil
  then show ?case by simp
next
  case (Cons k ks)
  have "m < length (views (deliver_error e k c))" using Cons.prems by simp
  from Cons.IH [OF this] Cons.prems show ?case
    by (auto simp: deliver_error_view simp del: deliver_error.simps)
qed

lemma fold_deliver_error_observers:
  "m < length (views c) \<Longrightarrow>
   v_observers (views (fold (deliver_error e) ks c) ! m) =
     (if ViewChain m \<in> set ks then [] else v_observers (views c ! m))"
proof (induction ks arbitrary: c)
  case Nil
  then show ?case by simp
next
  case (Cons k ks)
  have "m < length (views (deliver_error e k c))" using Cons.prems by simp
  from Cons.IH [OF this] Cons.prems show ?case
    by (auto simp: deliver_error_view simp del: deliver_error.simps)
qed

lemmas fold_deliver_error_view = fold_deliver_error_live fold_deliver_error_observers

lemma terminate_fields [simp]:
  "initialState (terminate e c) = initialState c"
  "env (terminate e c) = env c"
  "invoked (terminate e c) = invoked c"
  "live (terminate e c) = False"
  "seed (terminate e c) = seed c"
  "buffer (terminate e c) = buffer c"
  "sinks (terminate e c) = []"
  "trace (terminate e c) = trace c @ [ErrorEv e]"
  "length (views (terminate e c)) = length (views c)"
  "length (observers (terminate e c)) = length (observers c)"
  "map fst (observers (terminate e c)) = map fst (observers c)"
  "map v_path (views (terminate e c)) = map v_path (views c)"
  by (simp_all add: terminate_def)

lemma terminate_view:
  "m < length (views c) \<Longrightarrow>
   v_live (views (terminate e c) ! m) = (v_live (views c ! m) \<and> ViewChain m \<notin> set (sinks c))"
  "m < length (views c) \<Longrightarrow>
   v_observers (views (terminate e c) ! m) =
     (if ViewChain m \<in> set (sinks c) then [] else v_observers (views c ! m))"
  by (simp_all add: terminate_def fold_deliver_error_view)

lemma wfI:
  assumes "distinct (sinks c)"
    and "\<not> live c \<Longrightarrow> sinks c = []"
    and "\<And>i. Observer i \<in> set (sinks c) \<Longrightarrow>
           i < length (observers c) \<and> fst (observers c ! i) = FullState"
    and "\<And>n. ViewChain n \<in> set (sinks c) \<Longrightarrow> n < length (views c) \<and> v_live (views c ! n)"
    and "\<And>n. n < length (views c) \<Longrightarrow> v_live (views c ! n) \<Longrightarrow> ViewChain n \<in> set (sinks c)"
    and "\<And>n. n < length (views c) \<Longrightarrow> \<not> v_live (views c ! n) \<Longrightarrow> v_observers (views c ! n) = []"
    and "\<And>n. n < length (views c) \<Longrightarrow> distinct (v_observers (views c ! n))"
    and "\<And>n i. n < length (views c) \<Longrightarrow> i \<in> set (v_observers (views c ! n)) \<Longrightarrow>
           i < length (observers c) \<and> fst (observers c ! i) = PathView n"
  shows "wf c"
  unfolding wf_def using assms by blast

lemma wfD:
  assumes "wf c"
  shows "distinct (sinks c)"
    and "\<not> live c \<Longrightarrow> sinks c = []"
    and "Observer i \<in> set (sinks c) \<Longrightarrow> i < length (observers c)"
    and "Observer i \<in> set (sinks c) \<Longrightarrow> fst (observers c ! i) = FullState"
    and "ViewChain n \<in> set (sinks c) \<Longrightarrow> n < length (views c)"
    and "ViewChain n \<in> set (sinks c) \<Longrightarrow> v_live (views c ! n)"
    and "n < length (views c) \<Longrightarrow> v_live (views c ! n) \<Longrightarrow> ViewChain n \<in> set (sinks c)"
    and "n < length (views c) \<Longrightarrow> \<not> v_live (views c ! n) \<Longrightarrow> v_observers (views c ! n) = []"
    and "n < length (views c) \<Longrightarrow> distinct (v_observers (views c ! n))"
    and "n < length (views c) \<Longrightarrow> i \<in> set (v_observers (views c ! n)) \<Longrightarrow> i < length (observers c)"
    and "n < length (views c) \<Longrightarrow> i \<in> set (v_observers (views c ! n)) \<Longrightarrow>
           fst (observers c ! i) = PathView n"
  using assms unfolding wf_def by blast+

lemma wf_terminate:
  assumes "wf c"
  shows "wf (terminate e c)"
proof (rule wfI)
  fix n assume n: "n < length (views (terminate e c))"
  then have n': "n < length (views c)" by simp
  show "distinct (v_observers (views (terminate e c) ! n))"
    using wfD(9) [OF assms n'] by (simp add: terminate_view n')
  { assume "v_live (views (terminate e c) ! n)"
    then have False using wfD(7) [OF assms n'] by (simp add: terminate_view n')
    then show "ViewChain n \<in> set (sinks (terminate e c))" .. }
  { assume "\<not> v_live (views (terminate e c) ! n)"
    show "v_observers (views (terminate e c) ! n) = []"
      using wfD(7,8) [OF assms n'] by (auto simp: terminate_view n') }
  { fix i assume "i \<in> set (v_observers (views (terminate e c) ! n))"
    then have i: "i \<in> set (v_observers (views c ! n))"
      by (simp add: terminate_view n' split: if_splits)
    have "fst (observers (terminate e c) ! i) = fst (observers c ! i)"
      using wfD(10) [OF assms n' i] nth_map [of i "observers (terminate e c)" fst]
        nth_map [of i "observers c" fst] by simp
    then show "i < length (observers (terminate e c)) \<and>
        fst (observers (terminate e c) ! i) = PathView n"
      using wfD(10,11) [OF assms n' i] by simp }
qed simp_all

lemma note_calls_fields [simp]:
  "env (note_calls u c) = env c"
  "initialState (note_calls u c) = initialState c"
  "live (note_calls u c) = live c"
  "seed (note_calls u c) = seed c"
  "buffer (note_calls u c) = buffer c"
  "sinks (note_calls u c) = sinks c"
  "views (note_calls u c) = views c"
  "observers (note_calls u c) = observers c"
  "trace (note_calls u c) = trace c"
  "invoked (note_calls u c) = invoked c @ reducer_calls (seed c) u"
  by (simp_all add: note_calls_def)

lemma note_calls_shape [simp]: "same_shape c (note_calls u c)"
  by (simp add: same_shape_def)

lemma wf_note_calls: "wf c \<Longrightarrow> wf (note_calls u c)"
  using wf_same_shape [OF note_calls_shape] .

lemma wf_setState: "wf c \<Longrightarrow> wf (setState u c)"
proof -
  assume w: "wf c"
  have "same_shape c ((note_calls u c)\<lparr>seed := s\<rparr>)" for s by (simp add: same_shape_def)
  then have "wf (publish s ((note_calls u c)\<lparr>seed := s\<rparr>))" for s
    using w wf_same_shape publish_shape same_shape_trans by blast
  then show ?thesis
    using w by (simp add: setState_def wf_terminate wf_note_calls split: sum.splits)
qed

lemma wf_setupState: "wf (setupState rt init)"
  by (simp add: wf_def setupState_def)

lemma wf_getState:
  assumes "wf c"
  shows "wf (snd (getState path c))"
proof (cases "path = []")
  case True
  then show ?thesis using assms by (simp add: getState_def)
next
  case False
  define v0 where "v0 = \<lparr>v_path = path, v_live = False, v_key = None,
                                 v_buffer = None, v_observers = []\<rparr>"
  define c' where "c' = c\<lparr>views := views c @ [v0]\<rparr>"
  have eq: "snd (getState path c) = c'" using False by (simp add: getState_def c'_def v0_def)
  have f: "sinks c' = sinks c" "live c' = live c" "observers c' = observers c"
    "views c' = views c @ [v0]" by (simp_all add: c'_def)
  have v0: "\<not> v_live v0" "v_observers v0 = []" by (simp_all add: v0_def)
  have "wf c'"
  proof (rule wfI)
    show "distinct (sinks c')" using wfD(1) [OF assms] f by simp
    show "\<not> live c' \<Longrightarrow> sinks c' = []" using wfD(2) [OF assms] f by simp
    show "Observer i \<in> set (sinks c') \<Longrightarrow>
           i < length (observers c') \<and> fst (observers c' ! i) = FullState" for i
      using wfD(3,4) [OF assms] f by simp
    show "ViewChain n \<in> set (sinks c') \<Longrightarrow> n < length (views c') \<and> v_live (views c' ! n)" for n
      using wfD(5,6) [OF assms, of n] f by (simp add: nth_append)
    show "n < length (views c') \<Longrightarrow> v_live (views c' ! n) \<Longrightarrow> ViewChain n \<in> set (sinks c')" for n
      using wfD(7) [OF assms, of n] f v0 by (cases "n < length (views c)") (simp_all add: nth_append)
    show "n < length (views c') \<Longrightarrow> \<not> v_live (views c' ! n) \<Longrightarrow> v_observers (views c' ! n) = []" for n
      using wfD(8) [OF assms, of n] f v0 by (cases "n < length (views c)") (simp_all add: nth_append)
    show "n < length (views c') \<Longrightarrow> distinct (v_observers (views c' ! n))" for n
      using wfD(9) [OF assms, of n] f v0 by (cases "n < length (views c)") (simp_all add: nth_append)
    show "n < length (views c') \<Longrightarrow> i \<in> set (v_observers (views c' ! n)) \<Longrightarrow>
           i < length (observers c') \<and> fst (observers c' ! i) = PathView n" for n i
      using wfD(10,11) [OF assms, of n i] f v0 by (cases "n < length (views c)") (simp_all add: nth_append)
  qed
  then show ?thesis by (simp add: eq)
qed


lemma subscribe_state_fields [simp]:
  "initialState (subscribe_state k c) = initialState c"
  "env (subscribe_state k c) = env c"
  "invoked (subscribe_state k c) = invoked c"
  "live (subscribe_state k c)"
  "trace (subscribe_state k c) = trace c"
  "length (views (subscribe_state k c)) = length (views c)"
  "length (observers (subscribe_state k c)) = length (observers c)"
  "map fst (observers (subscribe_state k c)) = map fst (observers c)"
  "map v_live (views (subscribe_state k c)) = map v_live (views c)"
  "map v_observers (views (subscribe_state k c)) = map v_observers (views c)"
  "map v_path (views (subscribe_state k c)) = map v_path (views c)"
  by (simp_all add: subscribe_state_def Let_def split: option.splits)

lemma subscribe_state_sinks:
  "sinks (subscribe_state k c) = (if live c then sinks c @ [k] else [k])"
  by (simp add: subscribe_state_def Let_def split: option.splits)

lemma subscribe_state_nth:
  "j < length (observers c) \<Longrightarrow> fst (observers (subscribe_state k c) ! j) = fst (observers c ! j)"
  "m < length (views c) \<Longrightarrow> v_live (views (subscribe_state k c) ! m) = v_live (views c ! m)"
  "m < length (views c) \<Longrightarrow> v_observers (views (subscribe_state k c) ! m) = v_observers (views c ! m)"
  "m < length (views c) \<Longrightarrow> v_path (views (subscribe_state k c) ! m) = v_path (views c ! m)"
proof -
  show "j < length (observers c) \<Longrightarrow> fst (observers (subscribe_state k c) ! j) = fst (observers c ! j)"
    using nth_map [of j "observers (subscribe_state k c)" fst] nth_map [of j "observers c" fst]
    by simp
  show "m < length (views c) \<Longrightarrow> v_live (views (subscribe_state k c) ! m) = v_live (views c ! m)"
    using nth_map [of m "views (subscribe_state k c)" v_live] nth_map [of m "views c" v_live]
    by simp
  show "m < length (views c) \<Longrightarrow> v_observers (views (subscribe_state k c) ! m) = v_observers (views c ! m)"
    using nth_map [of m "views (subscribe_state k c)" v_observers] nth_map [of m "views c" v_observers]
    by simp
  show "m < length (views c) \<Longrightarrow> v_path (views (subscribe_state k c) ! m) = v_path (views c ! m)"
    using nth_map [of m "views (subscribe_state k c)" v_path] nth_map [of m "views c" v_path]
    by simp
qed

lemma wf_new_observer:
  assumes "wf c"
  shows "wf (c\<lparr>observers := observers c @ [(h, [])]\<rparr>)"
proof (rule wfI)
  let ?c = "c\<lparr>observers := observers c @ [(h, [])]\<rparr>"
  show "Observer i \<in> set (sinks ?c) \<Longrightarrow>
           i < length (observers ?c) \<and> fst (observers ?c ! i) = FullState" for i
    using wfD(3,4) [OF assms, of i] by (simp add: nth_append)
  show "n < length (views ?c) \<Longrightarrow> i \<in> set (v_observers (views ?c ! n)) \<Longrightarrow>
           i < length (observers ?c) \<and> fst (observers ?c ! i) = PathView n" for n i
    using wfD(10,11) [OF assms, of n i] by (simp add: nth_append)
qed (use wfD [OF assms] in simp_all)

lemma wf_subscribe_full:
  assumes "wf c" "i < length (observers c)" "fst (observers c ! i) = FullState"
    "Observer i \<notin> set (sinks c)"
  shows "wf (subscribe_state (Observer i) c)"
proof (rule wfI)
  let ?r = "subscribe_state (Observer i) c"
  have S: "sinks ?r = sinks c @ [Observer i]"
    using wfD(2) [OF assms(1)] by (simp add: subscribe_state_sinks)
  show "distinct (sinks ?r)" using wfD(1) [OF assms(1)] assms(4) by (simp add: S)
  show "\<not> live ?r \<Longrightarrow> sinks ?r = []" by simp
  show "Observer j \<in> set (sinks ?r) \<Longrightarrow>
           j < length (observers ?r) \<and> fst (observers ?r ! j) = FullState" for j
    using wfD(3,4) [OF assms(1), of j] assms(2,3) by (auto simp: S subscribe_state_nth)
  show "ViewChain n \<in> set (sinks ?r) \<Longrightarrow> n < length (views ?r) \<and> v_live (views ?r ! n)" for n
    using wfD(5,6) [OF assms(1), of n] by (auto simp: S subscribe_state_nth)
  show "n < length (views ?r) \<Longrightarrow> v_live (views ?r ! n) \<Longrightarrow> ViewChain n \<in> set (sinks ?r)" for n
    using wfD(7) [OF assms(1), of n] by (auto simp: S subscribe_state_nth)
  show "n < length (views ?r) \<Longrightarrow> \<not> v_live (views ?r ! n) \<Longrightarrow> v_observers (views ?r ! n) = []" for n
    using wfD(8) [OF assms(1), of n] by (auto simp: subscribe_state_nth)
  show "n < length (views ?r) \<Longrightarrow> distinct (v_observers (views ?r ! n))" for n
    using wfD(9) [OF assms(1), of n] by (auto simp: subscribe_state_nth)
  show "n < length (views ?r) \<Longrightarrow> j \<in> set (v_observers (views ?r ! n)) \<Longrightarrow>
           j < length (observers ?r) \<and> fst (observers ?r ! j) = PathView n" for n j
    using wfD(10,11) [OF assms(1), of n j] by (auto simp: subscribe_state_nth)
qed

lemma wf_subscribe_view:
  assumes "wf c" "n < length (views c)" "\<not> v_live (views c ! n)"
    "i < length (observers c)" "fst (observers c ! i) = PathView n"
  shows "wf (subscribe_state (ViewChain n)
               (c\<lparr>views := (views c)[n := (views c ! n)\<lparr>v_live := True, v_key := None,
                                 v_buffer := None, v_observers := [i]\<rparr>]\<rparr>))"
proof (rule wfI)
  define c1 where "c1 = c\<lparr>views := (views c)[n := (views c ! n)\<lparr>v_live := True, v_key := None,
                                 v_buffer := None, v_observers := [i]\<rparr>]\<rparr>"
  let ?r = "subscribe_state (ViewChain n) c1"
  have c1: "sinks c1 = sinks c" "live c1 = live c" "observers c1 = observers c"
    "length (views c1) = length (views c)"
    "\<And>m. m < length (views c) \<Longrightarrow> v_live (views c1 ! m) = (m = n \<or> v_live (views c ! m))"
    "\<And>m. m < length (views c) \<Longrightarrow>
        v_observers (views c1 ! m) = (if m = n then [i] else v_observers (views c ! m))"
    using assms(2) by (auto simp: c1_def nth_list_update)
  have notin: "ViewChain n \<notin> set (sinks c)" using wfD(6) [OF assms(1), of n] assms(3) by blast
  have S: "sinks ?r = sinks c @ [ViewChain n]"
    using wfD(2) [OF assms(1)] c1 by (simp add: subscribe_state_sinks)
  have V: "length (views ?r) = length (views c)" using c1 by simp
  have O: "length (observers ?r) = length (observers c)" using c1 by simp
  have F: "j < length (observers c) \<Longrightarrow> fst (observers ?r ! j) = fst (observers c ! j)" for j
    using c1 by (simp add: subscribe_state_nth)
  have L: "m < length (views c) \<Longrightarrow> v_live (views ?r ! m) = (m = n \<or> v_live (views c ! m))" for m
    using c1 by (simp add: subscribe_state_nth)
  have VO: "m < length (views c) \<Longrightarrow>
        v_observers (views ?r ! m) = (if m = n then [i] else v_observers (views c ! m))" for m
    using c1 by (simp add: subscribe_state_nth)
  show "distinct (sinks ?r)" using wfD(1) [OF assms(1)] notin by (simp add: S)
  show "\<not> live ?r \<Longrightarrow> sinks ?r = []" by simp
  show "Observer j \<in> set (sinks ?r) \<Longrightarrow>
           j < length (observers ?r) \<and> fst (observers ?r ! j) = FullState" for j
    using wfD(3,4) [OF assms(1), of j] by (auto simp: c1(1-4) S O F)
  show "ViewChain m \<in> set (sinks ?r) \<Longrightarrow> m < length (views ?r) \<and> v_live (views ?r ! m)" for m
    using wfD(5,6) [OF assms(1), of m] assms(2) by (auto simp: c1(1-4) S V L)
  show "m < length (views ?r) \<Longrightarrow> v_live (views ?r ! m) \<Longrightarrow> ViewChain m \<in> set (sinks ?r)" for m
    using wfD(7) [OF assms(1), of m] by (auto simp: c1(1-4) S V L)
  show "m < length (views ?r) \<Longrightarrow> \<not> v_live (views ?r ! m) \<Longrightarrow> v_observers (views ?r ! m) = []" for m
    using wfD(8) [OF assms(1), of m] by (auto simp: c1(1-4) V L VO)
  show "m < length (views ?r) \<Longrightarrow> distinct (v_observers (views ?r ! m))" for m
    using wfD(9) [OF assms(1), of m] by (auto simp: c1(1-4) V VO)
  show "m < length (views ?r) \<Longrightarrow> j \<in> set (v_observers (views ?r ! m)) \<Longrightarrow>
           j < length (observers ?r) \<and> fst (observers ?r ! j) = PathView m" for m j
    using wfD(10,11) [OF assms(1), of m j] assms(4,5) by (auto simp: c1(1-4) V VO O F split: if_splits)
qed


lemma wf_subscribe_live_view:
  assumes "wf c" "n < length (views c)" "v_live (views c ! n)"
    "i < length (observers c)" "fst (observers c ! i) = PathView n"
    "\<And>m. m < length (views c) \<Longrightarrow> i \<notin> set (v_observers (views c ! m))"
    "map fst os = map fst (observers c)"
  shows "wf (c\<lparr>views := (views c)[n := (views c ! n)\<lparr>v_observers := v_observers (views c ! n) @ [i]\<rparr>],
               observers := os\<rparr>)"
proof (rule wfI)
  define r where "r = c\<lparr>views := (views c)[n := (views c ! n)\<lparr>v_observers := v_observers (views c ! n) @ [i]\<rparr>],
               observers := os\<rparr>"
  have O: "length os = length (observers c)" using assms(7) map_eq_imp_length_eq by blast
  have F: "j < length (observers c) \<Longrightarrow> fst (os ! j) = fst (observers c ! j)" for j
    using assms(7) O nth_map [of j os fst] nth_map [of j "observers c" fst] by simp
  have r: "sinks r = sinks c" "live r = live c" "observers r = os"
    "length (views r) = length (views c)"
    "\<And>m. m < length (views c) \<Longrightarrow> v_live (views r ! m) = v_live (views c ! m)"
    "\<And>m. m < length (views c) \<Longrightarrow>
        v_observers (views r ! m) =
          (if m = n then v_observers (views c ! n) @ [i] else v_observers (views c ! m))"
    using assms(2) by (auto simp: r_def nth_list_update)
  show "distinct (sinks r)" using wfD(1) [OF assms(1)] r by simp
  show "\<not> live r \<Longrightarrow> sinks r = []" using wfD(2) [OF assms(1)] r by simp
  show "Observer j \<in> set (sinks r) \<Longrightarrow>
           j < length (observers r) \<and> fst (observers r ! j) = FullState" for j
    using wfD(3,4) [OF assms(1), of j] by (auto simp: r(1-4) O F)
  show "ViewChain m \<in> set (sinks r) \<Longrightarrow> m < length (views r) \<and> v_live (views r ! m)" for m
    using wfD(5,6) [OF assms(1), of m] by (auto simp: r)
  show "m < length (views r) \<Longrightarrow> v_live (views r ! m) \<Longrightarrow> ViewChain m \<in> set (sinks r)" for m
    using wfD(7) [OF assms(1), of m] by (auto simp: r)
  show "m < length (views r) \<Longrightarrow> \<not> v_live (views r ! m) \<Longrightarrow> v_observers (views r ! m) = []" for m
    using wfD(8) [OF assms(1), of m] assms(3) by (auto simp: r)
  show "m < length (views r) \<Longrightarrow> distinct (v_observers (views r ! m))" for m
    using wfD(9) [OF assms(1), of m] assms(6) [of n] by (auto simp: r)
  show "m < length (views r) \<Longrightarrow> j \<in> set (v_observers (views r ! m)) \<Longrightarrow>
           j < length (observers r) \<and> fst (observers r ! j) = PathView m" for m j
    using wfD(10,11) [OF assms(1), of m j] assms(4,5)
    by (auto simp: r(1-4) r(6) O F split: if_splits)
qed

lemma wf_subscribe:
  assumes "wf c"
  shows "wf (snd (subscribe h c))"
proof -
  define i where "i = length (observers c)"
  define c0 where "c0 = c\<lparr>observers := observers c @ [(h, [])]\<rparr>"
  have w0: "wf c0" unfolding c0_def by (rule wf_new_observer [OF assms])
  have c0: "sinks c0 = sinks c" "views c0 = views c" "i < length (observers c0)"
    "fst (observers c0 ! i) = h" "length (observers c0) = Suc i"
    by (simp_all add: c0_def i_def)
  show ?thesis
  proof (cases h)
    case FullState
    have "Observer i \<notin> set (sinks c0)"
      using wfD(3) [OF assms, of i] c0 by (auto simp: i_def)
    then have "wf (subscribe_state (Observer i) c0)"
      using wf_subscribe_full [OF w0 c0(3)] c0(4) FullState by simp
    then show ?thesis using FullState by (simp add: subscribe_def Let_def c0_def i_def)
  next
    case (PathView n)
    show ?thesis
    proof (cases "n < length (views c)")
      case False
      then show ?thesis using PathView w0 by (simp add: subscribe_def Let_def c0_def)
    next
      case n: True
      show ?thesis
      proof (cases "v_live (views c ! n)")
        case True
        have fresh: "i \<notin> set (v_observers (views c0 ! m))" if "m < length (views c0)" for m
          using wfD(10) [OF assms, of m i] that c0 by (auto simp: i_def)
        define os where "os = (case v_buffer (views c ! n) of
                                          None \<Rightarrow> observers c0
                                        | Some x \<Rightarrow> tell (NextValue x) i (observers c0))"
        have os: "map fst os = map fst (observers c0)"
          by (simp add: os_def split: option.splits)
        have eq: "snd (subscribe h c) =
            c0\<lparr>views := (views c0)[n := (views c0 ! n)\<lparr>v_observers := v_observers (views c0 ! n) @ [i]\<rparr>],
               observers := os\<rparr>"
          using PathView n True by (simp add: subscribe_def Let_def c0_def i_def os_def split: option.splits)
        have n0: "n < length (views c0)" "v_live (views c0 ! n)" "fst (observers c0 ! i) = PathView n"
          using n True c0 PathView by simp_all
        show ?thesis
          unfolding eq by (rule wf_subscribe_live_view [OF w0 n0(1,2) c0(3) n0(3) fresh os])
      next
        case False
        have eq: "snd (subscribe h c) = subscribe_state (ViewChain n)
               (c0\<lparr>views := (views c0)[n := (views c0 ! n)\<lparr>v_live := True, v_key := None,
                                 v_buffer := None, v_observers := [i]\<rparr>]\<rparr>)"
          using PathView n False by (simp add: subscribe_def Let_def c0_def i_def)
        have n0: "n < length (views c0)" "\<not> v_live (views c0 ! n)" "fst (observers c0 ! i) = PathView n"
          using n False c0 PathView by simp_all
        show ?thesis
          unfolding eq by (rule wf_subscribe_view [OF w0 n0(1,2) c0(3) n0(3)])
      qed
    qed
  qed
qed

lemma wf_step: "wf c \<Longrightarrow> wf (step a c)"
  by (cases a) (simp_all add: wf_setState wf_getState wf_subscribe)

lemma run_snoc: "run (cs @ [a]) c = step a (run cs c)"
  by (simp add: run_def)

lemma wf_run: "wf c \<Longrightarrow> wf (run cs c)"
  by (induction cs rule: rev_induct) (simp_all add: run_def wf_step)

lemma wf_reachable: "wf (run cs (setupState rt init))"
  by (rule wf_run [OF wf_setupState])

section \<open>Observers of the full sequence\<close>

lemma nth_map_eq:
  "map f xs = map f ys \<Longrightarrow> n < length ys \<Longrightarrow> f (xs ! n) = f (ys ! n)"
  by (metis length_map nth_map)

lemma deliver_observers_nth:
  "m < length (views c) \<Longrightarrow> v_observers (views (deliver s k c) ! m) = v_observers (views c ! m)"
  using nth_map_eq [OF deliver_views(2), of m c s k] by simp

lemma deliver_observer_log:
  "j < length (observers c) \<Longrightarrow>
   snd (observers (deliver s (Observer i) c) ! j) =
     (if j = i then snd (observers c ! j) @ [NextState s] else snd (observers c ! j))"
  by (simp add: snd_tell)

lemma deliver_view_other_log:
  "n < length (views c) \<Longrightarrow> j \<notin> set (v_observers (views c ! n)) \<Longrightarrow>
   observers (deliver s (ViewChain n) c) ! j = observers c ! j"
  by (simp add: Let_def view_next_other)

text \<open>An observer of the full sequence, under a multicast of one snapshot.\<close>

lemma fold_deliver_full_log:
  assumes "distinct ks" "j < length (observers c)"
    and "\<And>n. ViewChain n \<in> set ks \<Longrightarrow> n < length (views c) \<and> j \<notin> set (v_observers (views c ! n))"
  shows "snd (observers (fold (deliver s) ks c) ! j) =
           snd (observers c ! j) @ (if Observer j \<in> set ks then [NextState s] else [])"
  using assms
proof (induction ks arbitrary: c)
  case Nil
  then show ?case by simp
next
  case (Cons k ks)
  let ?c = "deliver s k c"
  have d: "distinct ks" "k \<notin> set ks" using Cons.prems(1) by auto
  have j: "j < length (observers ?c)" using Cons.prems(2) by simp
  have v: "n < length (views ?c) \<and> j \<notin> set (v_observers (views ?c ! n))"
    if "ViewChain n \<in> set ks" for n
    using Cons.prems(3) [of n] that by (simp add: deliver_observers_nth)
  have IH: "snd (observers (fold (deliver s) ks ?c) ! j) =
           snd (observers ?c ! j) @ (if Observer j \<in> set ks then [NextState s] else [])"
    by (rule Cons.IH [OF d(1) j v])
  show ?case
  proof (cases k)
    case (Observer i)
    then show ?thesis
      using IH d(2) Cons.prems(2) by (auto simp: deliver_observer_log simp del: deliver.simps)
  next
    case (ViewChain n)
    have "observers ?c ! j = observers c ! j"
      using Cons.prems(3) [of n] ViewChain deliver_view_other_log [of n c j s] by simp
    then show ?thesis using IH ViewChain by simp
  qed
qed

lemma wf_full_not_in_view:
  assumes "wf c" "Observer j \<in> set (sinks c)" "n < length (views c)"
  shows "j \<notin> set (v_observers (views c ! n))"
  using wfD(4) [OF assms(1,2)] wfD(11) [OF assms(1,3), of j] by auto

lemma publish_full_log:
  assumes "wf c" "Observer j \<in> set (sinks c)"
  shows "logs (publish s c) j = logs c j @ [NextState s]"
proof -
  let ?c = "c\<lparr>buffer := Some s, trace := trace c @ [NextState s]\<rparr>"
  have "snd (observers (fold (deliver s) (sinks c) ?c) ! j) =
           snd (observers ?c ! j) @ (if Observer j \<in> set (sinks c) then [NextState s] else [])"
  proof (rule fold_deliver_full_log)
    show "distinct (sinks c)" by (rule wfD(1) [OF assms(1)])
    show "j < length (observers ?c)" using wfD(3) [OF assms] by simp
    show "n < length (views ?c) \<and> j \<notin> set (v_observers (views ?c ! n))"
      if "ViewChain n \<in> set (sinks c)" for n
      using wfD(5) [OF assms(1) that] wf_full_not_in_view [OF assms, of n] by simp
  qed
  then show ?thesis using assms(2) by (simp add: publish_def logs_def)
qed


lemma trace_setState:
  "trace (setState u c) =
     trace c @ (if live c then (case accumulator (seed c) u of
                                  Inr s \<Rightarrow> [NextState s] | Inl e \<Rightarrow> [ErrorEv e])
                else [])"
  by (simp add: setState_def split: sum.splits)

lemma trace_getState [simp]: "trace (snd (getState p c)) = trace c"
  by (simp add: getState_def)

lemma trace_subscribe [simp]: "trace (snd (subscribe h c)) = trace c"
  by (simp add: subscribe_def Let_def split: handle.splits)

lemma trace_step: "\<exists>t. trace (step a c) = trace c @ t"
  by (cases a) (simp_all add: trace_setState)

lemma trace_run: "\<exists>t. trace (run cs c) = trace c @ t"
proof (induction cs rule: rev_induct)
  case Nil
  then show ?case by (simp add: run_def)
next
  case (snoc a cs)
  then obtain t where t: "trace (run cs c) = trace c @ t" by blast
  obtain t' where "trace (step a (run cs c)) = trace (run cs c) @ t'"
    using trace_step by blast
  then show ?case using t by (simp add: run_snoc)
qed

lemma failed_prefix: "\<not> list_ex failed (t @ t') \<Longrightarrow> \<not> list_ex failed t"
  by (simp add: list_ex_iff)

lemma buffer_subscribe_state [simp]:
  "buffer (subscribe_state k c) = (if live c then buffer c else None)"
  "seed (subscribe_state k c) = (if live c then seed c else initialState c)"
  by (simp_all add: subscribe_state_def Let_def split: option.splits)

lemma subscribe_state_other:
  assumes "\<And>i. k = Observer i \<Longrightarrow> i \<noteq> j"
    and "\<And>n. k = ViewChain n \<Longrightarrow> n < length (views c) \<Longrightarrow> j \<notin> set (v_observers (views c ! n))"
  shows "observers (subscribe_state k c) ! j = observers c ! j"
proof (cases k)
  case (Observer i)
  then show ?thesis using assms(1) [of i]
    by (simp add: subscribe_state_def Let_def tell_def split: option.splits)
next
  case (ViewChain n)
  then show ?thesis using assms(2) [of n]
    by (simp add: subscribe_state_def Let_def view_next_other split: option.splits)
qed

lemma subscribe_fst [simp]: "fst (subscribe h c) = length (observers c)"
  by (simp add: subscribe_def Let_def split: handle.splits)

lemma subscribe_old_logs:
  assumes "j < length (observers c)"
  shows "observers (snd (subscribe h c)) ! j = observers c ! j"
proof -
  define c0 where "c0 = c\<lparr>observers := observers c @ [(h, [])]\<rparr>"
  have c0: "observers c0 ! j = observers c ! j" "j \<noteq> length (observers c)"
    using assms by (simp_all add: c0_def nth_append)
  show ?thesis
  proof (cases h)
    case FullState
    have "observers (subscribe_state (Observer (length (observers c))) c0) ! j = observers c0 ! j"
      by (rule subscribe_state_other) (use c0 in simp_all)
    then show ?thesis using FullState c0 by (simp add: subscribe_def Let_def c0_def)
  next
    case (PathView n)
    show ?thesis
    proof (cases "n < length (views c) \<and> \<not> v_live (views c ! n)")
      case True
      define c1 where "c1 = c0\<lparr>views := (views c0)[n := (views c0 ! n)\<lparr>v_live := True, v_key := None,
                                 v_buffer := None, v_observers := [length (observers c)]\<rparr>]\<rparr>"
      have "observers (subscribe_state (ViewChain n) c1) ! j = observers c1 ! j"
        by (rule subscribe_state_other) (use c0 True in \<open>simp_all add: c1_def c0_def\<close>)
      then show ?thesis using PathView True c0
        by (simp add: subscribe_def Let_def c0_def c1_def)
    next
      case False
      then show ?thesis using PathView c0 assms
        by (auto simp: subscribe_def Let_def c0_def tell_def nth_append split: option.splits)
    qed
  qed
qed

lemma subscribe_sinks_mono:
  assumes "wf c" "k \<in> set (sinks c)"
  shows "k \<in> set (sinks (snd (subscribe h c)))"
proof -
  have "live c" using wfD(2) [OF assms(1)] assms(2) by (cases "live c") auto
  then show ?thesis using assms(2)
    by (auto simp: subscribe_def Let_def subscribe_state_sinks split: handle.splits)
qed

lemma subscribe_full_log:
  "logs (snd (subscribe FullState c)) (length (observers c)) = replay c"
  "live c \<or> sinks c = [] \<Longrightarrow>
     sinks (snd (subscribe FullState c)) = sinks c @ [Observer (length (observers c))]"
  by (auto simp: subscribe_def Let_def subscribe_state_def logs_def replay_def tell_def
      split: option.splits)

lemma full_observer_step:
  assumes "wf c" "Observer j \<in> set (sinks c)" "\<not> list_ex failed (trace (step a c))"
  shows "Observer j \<in> set (sinks (step a c)) \<and>
         logs (step a c) j = logs c j @ drop (length (trace c)) (trace (step a c))"
proof (cases a)
  case (SetState u)
  have l: "live c" using wfD(2) [OF assms(1)] assms(2) by (cases "live c") auto
  show ?thesis
  proof (cases "accumulator (seed c) u")
    case (Inl e)
    then have False using assms(3) SetState l by (simp add: trace_setState)
    then show ?thesis ..
  next
    case (Inr s)
    have "same_shape c ((note_calls u c)\<lparr>seed := s\<rparr>)" by (simp add: same_shape_def)
    then have w: "wf ((note_calls u c)\<lparr>seed := s\<rparr>)" using assms(1) wf_same_shape by blast
    have "logs (publish s ((note_calls u c)\<lparr>seed := s\<rparr>)) j = logs ((note_calls u c)\<lparr>seed := s\<rparr>) j @ [NextState s]"
      by (rule publish_full_log [OF w]) (use assms(2) in simp)
    then show ?thesis using SetState Inr l assms(2)
      by (simp add: setState_def logs_def)
  qed
next
  case (GetState p)
  then show ?thesis using assms(2) by (simp add: getState_def logs_def)
next
  case (Subscribe h)
  then show ?thesis
    using subscribe_old_logs [OF wfD(3) [OF assms(1,2)], of h]
      subscribe_sinks_mono [OF assms(1,2), of h]
    by (simp add: logs_def)
qed

lemma full_observer_run:
  assumes "wf c" "Observer j \<in> set (sinks c)" "\<not> list_ex failed (trace (run cs c))"
  shows "Observer j \<in> set (sinks (run cs c)) \<and>
         logs (run cs c) j = logs c j @ drop (length (trace c)) (trace (run cs c))"
  using assms(3)
proof (induction cs rule: rev_induct)
  case Nil
  then show ?case using assms(2) by (simp add: run_def)
next
  case (snoc a cs)
  let ?c = "run cs c"
  obtain t where t: "trace ?c = trace c @ t" using trace_run by blast
  obtain t' where t': "trace (step a ?c) = trace ?c @ t'" using trace_step by blast
  have nf: "\<not> list_ex failed (trace ?c)"
    using snoc.prems failed_prefix [of "trace ?c" t'] t' by (simp add: run_snoc)
  note IH = snoc.IH [OF nf]
  have "Observer j \<in> set (sinks (step a ?c)) \<and>
         logs (step a ?c) j = logs ?c j @ drop (length (trace ?c)) (trace (step a ?c))"
    by (rule full_observer_step [OF wf_run [OF assms(1)]]) (use IH snoc.prems in \<open>simp_all add: run_snoc\<close>)
  then show ?case using IH t t' by (simp add: run_snoc)
qed

lemma replay_step:
  assumes "\<not> list_ex failed (trace c) \<longrightarrow> replay c = latest (trace c)"
    and "\<not> list_ex failed (trace (step a c))"
  shows "replay (step a c) = latest (trace (step a c))"
proof -
  obtain t' where t': "trace (step a c) = trace c @ t'" using trace_step by blast
  then have "\<not> list_ex failed (trace c)" using assms(2) failed_prefix by metis
  then have r: "replay c = latest (trace c)" using assms(1) by simp
  show ?thesis
  proof (cases a)
    case (SetState u)
    show ?thesis
    proof (cases "live c")
      case True
      then show ?thesis using SetState assms(2)
        by (cases "accumulator (seed c) u")
           (simp_all add: trace_setState setState_def replay_def latest_def)
    next
      case False
      then show ?thesis using SetState r by (simp add: setState_def)
    qed
  next
    case (GetState p)
    then show ?thesis using r by (auto simp: getState_def replay_def)
  next
    case (Subscribe h)
    have "replay (snd (subscribe h c)) = (if live c then replay c else [])"
      by (simp add: subscribe_def Let_def replay_def split: handle.splits)
    moreover have "\<not> live c \<Longrightarrow> replay c = []" by (simp add: replay_def)
    ultimately have "replay (snd (subscribe h c)) = replay c" by (cases "live c") simp_all
    then show ?thesis using Subscribe r by simp
  qed
qed

lemma replay_run:
  assumes "\<not> list_ex failed (trace (run cs (setupState rt init)))"
  shows "replay (run cs (setupState rt init)) = latest (trace (run cs (setupState rt init)))"
  using assms
proof (induction cs rule: rev_induct)
  case Nil
  then show ?case by (simp add: run_def setupState_def replay_def latest_def)
next
  case (snoc a cs)
  let ?c = "run cs (setupState rt init)"
  have "replay (step a ?c) = latest (trace (step a ?c))"
    by (rule replay_step) (use snoc in \<open>simp_all add: run_snoc\<close>)
  then show ?case by (simp add: run_snoc)
qed

section \<open>The fold\<close>

lemma accumulator_returns:
  "returns u s \<Longrightarrow> accumulator s u = Inr (shallow_merge s (resolve u s))"
  by (cases u) (auto simp: accumulator_def applied_def split: sum.splits)

lemma snapshots_length [simp]: "length (snapshots s us) = length us"
  by (induction us arbitrary: s) simp_all

lemma snapshots_nth:
  "n < length us \<Longrightarrow> snapshots s us ! n = left_fold s (take (Suc n) us)"
proof (induction us arbitrary: s n)
  case Nil
  then show ?case by simp
next
  case (Cons u us)
  show ?case
  proof (cases n)
    case 0
    then show ?thesis by (simp add: left_fold_def)
  next
    case (Suc m)
    then have "m < length us" using Cons.prems by simp
    from Cons.IH [OF this] Suc show ?thesis by (simp add: left_fold_def)
  qed
qed

lemma run_Cons: "run (a # cs) c = run cs (step a c)"
  by (simp add: run_def)

lemma reducer_calls_returns:
  "returns u s \<Longrightarrow>
   reducer_calls s u @ invocations (shallow_merge s (resolve u s)) us = invocations s (u # us)"
  by (cases u) (simp_all add: reducer_calls_def applied_def)

lemma env_step [simp]: "env (step a c) = env c"
  by (cases a)
     (simp_all add: setState_def getState_def subscribe_def Let_def
        split: sum.splits handle.splits)

lemma env_run [simp]: "env (run cs c) = env c"
  by (induction cs arbitrary: c) (simp_all add: run_def)

lemma invoked_subscribe [simp]: "invoked (snd (subscribe h c)) = invoked c"
  by (simp add: subscribe_def Let_def split: handle.splits)

lemma subscribe_live:
  "live c \<Longrightarrow> live (snd (subscribe h c)) \<and> seed (snd (subscribe h c)) = seed c"
  by (simp add: subscribe_def Let_def split: handle.splits)

text \<open>
  While \<open>state$\<close> is subscribed, the calls of \<open>setState\<close> fold their updates into the
  accumulator, whatever calls of \<open>getState\<close> and subscriptions come in between.
\<close>

lemma run_calls:
  "live c \<Longrightarrow> accepted (seed c) (updates_of cs) \<Longrightarrow>
   live (run cs c) \<and>
   trace (run cs c) = trace c @ map NextState (snapshots (seed c) (updates_of cs)) \<and>
   invoked (run cs c) = invoked c @ invocations (seed c) (updates_of cs)"
proof (induction cs arbitrary: c)
  case Nil
  then show ?case by (simp add: run_def)
next
  case (Cons a cs)
  show ?case
  proof (cases a)
    case (SetState u)
    let ?s = "shallow_merge (seed c) (resolve u (seed c))"
    have r: "returns u (seed c)" "accepted ?s (updates_of cs)"
      using Cons.prems(2) SetState by simp_all
    have a: "accumulator (seed c) u = Inr ?s" using r(1) by (rule accumulator_returns)
    then have st: "setState u c = publish ?s ((note_calls u c)\<lparr>seed := ?s\<rparr>)"
      using Cons.prems(1) by (simp add: setState_def)
    have "live (run cs (setState u c)) \<and>
      trace (run cs (setState u c)) =
        trace (setState u c) @ map NextState (snapshots (seed (setState u c)) (updates_of cs)) \<and>
      invoked (run cs (setState u c)) =
        invoked (setState u c) @ invocations (seed (setState u c)) (updates_of cs)"
      by (rule Cons.IH) (use Cons.prems(1) r(2) st in simp_all)
    then show ?thesis
      using SetState reducer_calls_returns [OF r(1), of "updates_of cs"]
      by (simp add: run_Cons st)
  next
    case (GetState p)
    have "live (run cs (step a c)) \<and>
      trace (run cs (step a c)) =
        trace (step a c) @ map NextState (snapshots (seed (step a c)) (updates_of cs)) \<and>
      invoked (run cs (step a c)) =
        invoked (step a c) @ invocations (seed (step a c)) (updates_of cs)"
      by (rule Cons.IH) (use Cons.prems GetState in \<open>simp_all add: getState_def\<close>)
    then show ?thesis using GetState by (simp add: run_Cons getState_def)
  next
    case (Subscribe h)
    have "live (run cs (step a c)) \<and>
      trace (run cs (step a c)) =
        trace (step a c) @ map NextState (snapshots (seed (step a c)) (updates_of cs)) \<and>
      invoked (run cs (step a c)) =
        invoked (step a c) @ invocations (seed (step a c)) (updates_of cs)"
      by (rule Cons.IH) (use Cons.prems Subscribe subscribe_live [of c h] in simp_all)
    then show ?thesis using Subscribe subscribe_live [OF Cons.prems(1), of h]
      by (simp add: run_Cons)
  qed
qed

lemma seed_initial_step:
  assumes "initialState c = init" "live c \<and> trace c = [] \<longrightarrow> seed c = init"
  shows "initialState (step a c) = init \<and>
         (live (step a c) \<and> trace (step a c) = [] \<longrightarrow> seed (step a c) = init)"
proof (cases a)
  case (SetState u)
  then show ?thesis using assms
    by (auto simp: setState_def split: sum.splits)
next
  case (GetState p)
  then show ?thesis using assms by (simp add: getState_def)
next
  case (Subscribe h)
  then show ?thesis using assms
    by (auto simp: subscribe_def Let_def split: handle.splits)
qed

lemma seed_initial_run:
  "initialState (run cs (setupState rt init)) = init \<and>
   (live (run cs (setupState rt init)) \<and> trace (run cs (setupState rt init)) = [] \<longrightarrow>
      seed (run cs (setupState rt init)) = init)"
proof (induction cs rule: rev_induct)
  case Nil
  then show ?case by (simp add: run_def setupState_def)
next
  case (snoc a cs)
  then show ?case using seed_initial_step [of "run cs (setupState rt init)" init a]
    by (simp add: run_snoc)
qed

lemma failed_snapshots [simp]: "\<not> list_ex failed (map NextState xs)"
  by (simp add: list_ex_iff)

section \<open>Errors and the observers of a view\<close>

lemma deliver_error_observers_nth:
  "m < length (views c) \<Longrightarrow>
   set (v_observers (views (deliver_error e k c) ! m)) \<subseteq> set (v_observers (views c ! m))"
  by (simp add: deliver_error_view(2))

lemma deliver_error_other:
  assumes "k \<noteq> Observer j"
    and "\<And>n. k = ViewChain n \<Longrightarrow> n < length (views c) \<Longrightarrow> j \<notin> set (v_observers (views c ! n))"
  shows "observers (deliver_error e k c) ! j = observers c ! j"
proof (cases k)
  case (Observer i)
  then show ?thesis using assms(1) by (simp add: tell_def)
next
  case (ViewChain n)
  then show ?thesis using assms(2) [of n]
    by (simp add: Let_def view_error_def notify_other)
qed

lemma fold_deliver_error_other:
  assumes "Observer j \<notin> set ks"
    and "\<And>n. ViewChain n \<in> set ks \<Longrightarrow> n < length (views c) \<Longrightarrow>
           j \<notin> set (v_observers (views c ! n))"
  shows "observers (fold (deliver_error e) ks c) ! j = observers c ! j"
  using assms
proof (induction ks arbitrary: c)
  case Nil
  then show ?case by simp
next
  case (Cons k ks)
  let ?c = "deliver_error e k c"
  have 1: "observers ?c ! j = observers c ! j"
    by (rule deliver_error_other) (use Cons.prems in auto)
  have 2: "j \<notin> set (v_observers (views ?c ! n))"
    if "ViewChain n \<in> set ks" "n < length (views ?c)" for n
    using Cons.prems(2) [of n] that deliver_error_observers_nth [of n c e k] by auto
  have "observers (fold (deliver_error e) ks ?c) ! j = observers ?c ! j"
    by (rule Cons.IH) (use Cons.prems(1) 2 in auto)
  then show ?case using 1 by simp
qed

text \<open>An observer of \<open>state$\<close> or of a live view gets the error once.\<close>

lemma fold_deliver_error_full_log:
  assumes "distinct ks" "Observer j \<in> set ks" "j < length (observers c)"
    and "\<And>n. ViewChain n \<in> set ks \<Longrightarrow> n < length (views c) \<Longrightarrow>
           j \<notin> set (v_observers (views c ! n))"
  shows "snd (observers (fold (deliver_error e) ks c) ! j) = snd (observers c ! j) @ [ErrorEv e]"
  using assms
proof (induction ks arbitrary: c)
  case Nil
  then show ?case by simp
next
  case (Cons k ks)
  let ?c = "deliver_error e k c"
  have v: "j \<notin> set (v_observers (views ?c ! n))"
    if "ViewChain n \<in> set ks" "n < length (views ?c)" for n
    using Cons.prems(4) [of n] that deliver_error_observers_nth [of n c e k] by auto
  show ?case
  proof (cases "k = Observer j")
    case True
    then have "Observer j \<notin> set ks" using Cons.prems(1) by simp
    then have "observers (fold (deliver_error e) ks ?c) ! j = observers ?c ! j"
      using fold_deliver_error_other [of j ks ?c e] v by blast
    then show ?thesis using True Cons.prems(3) by (simp add: snd_tell)
  next
    case False
    have 1: "observers ?c ! j = observers c ! j"
      by (rule deliver_error_other) (use False Cons.prems(4) in auto)
    have "snd (observers (fold (deliver_error e) ks ?c) ! j) = snd (observers ?c ! j) @ [ErrorEv e]"
      by (rule Cons.IH) (use Cons.prems False v in auto)
    then show ?thesis using 1 by simp
  qed
qed

lemma fold_deliver_error_view_log:
  assumes "distinct ks" "ViewChain n \<in> set ks" "n < length (views c)"
    and "j \<in> set (v_observers (views c ! n))" "distinct (v_observers (views c ! n))"
    and "j < length (observers c)" "Observer j \<notin> set ks"
    and "\<And>m. m \<noteq> n \<Longrightarrow> ViewChain m \<in> set ks \<Longrightarrow> m < length (views c) \<Longrightarrow>
           j \<notin> set (v_observers (views c ! m))"
  shows "snd (observers (fold (deliver_error e) ks c) ! j) = snd (observers c ! j) @ [ErrorEv e]"
  using assms
proof (induction ks arbitrary: c)
  case Nil
  then show ?case by simp
next
  case (Cons k ks)
  let ?c = "deliver_error e k c"
  show ?case
  proof (cases "k = ViewChain n")
    case True
    then have nk: "ViewChain n \<notin> set ks" using Cons.prems(1) by simp
    have "j \<notin> set (v_observers (views ?c ! m))"
      if "ViewChain m \<in> set ks" "m < length (views ?c)" for m
    proof -
      have "m \<noteq> n" using that(1) nk by auto
      then show ?thesis
        using Cons.prems(8) [of m] that deliver_error_observers_nth [of m c e k] by auto
    qed
    then have "observers (fold (deliver_error e) ks ?c) ! j = observers ?c ! j"
      using fold_deliver_error_other [of j ks ?c e] Cons.prems(7) by auto
    moreover have "snd (observers ?c ! j) = snd (observers c ! j) @ [ErrorEv e]"
      using True Cons.prems(3-6) by (simp add: Let_def view_error_def notify_member)
    ultimately show ?thesis by simp
  next
    case False
    have 1: "observers ?c ! j = observers c ! j"
    proof (rule deliver_error_other)
      show "k \<noteq> Observer j" using Cons.prems(7) by auto
      show "j \<notin> set (v_observers (views c ! m))" if "k = ViewChain m" "m < length (views c)" for m
        using Cons.prems(8) [of m] that False by auto
    qed
    have vn: "views ?c ! n = views c ! n"
      using False by (cases k) (simp_all add: Let_def)
    have "snd (observers (fold (deliver_error e) ks ?c) ! j) = snd (observers ?c ! j) @ [ErrorEv e]"
    proof (rule Cons.IH)
      show "distinct ks" using Cons.prems(1) by simp
      show "ViewChain n \<in> set ks" using Cons.prems(2) False by auto
      show "n < length (views ?c)" using Cons.prems(3) by simp
      show "j \<in> set (v_observers (views ?c ! n))" using Cons.prems(4) vn by simp
      show "distinct (v_observers (views ?c ! n))" using Cons.prems(5) vn by simp
      show "j < length (observers ?c)" using Cons.prems(6) by simp
      show "Observer j \<notin> set ks" using Cons.prems(7) by simp
      show "j \<notin> set (v_observers (views ?c ! m))"
        if "m \<noteq> n" "ViewChain m \<in> set ks" "m < length (views ?c)" for m
        using Cons.prems(8) [of m] that deliver_error_observers_nth [of m c e k] by auto
    qed
    then show ?thesis using 1 by simp
  qed
qed

lemma wf_view_observer_facts:
  assumes "wf c" "n < length (views c)" "j \<in> set (v_observers (views c ! n))"
  shows "ViewChain n \<in> set (sinks c)" "live c" "Observer j \<notin> set (sinks c)"
    "j < length (observers c)"
    "\<And>m. m \<noteq> n \<Longrightarrow> m < length (views c) \<Longrightarrow> j \<notin> set (v_observers (views c ! m))"
proof -
  have "v_live (views c ! n)"
    using wfD(8) [OF assms(1,2)] assms(3) by (cases "v_live (views c ! n)") auto
  then show s: "ViewChain n \<in> set (sinks c)" by (rule wfD(7) [OF assms(1,2)])
  then show "live c" using wfD(2) [OF assms(1)] by (cases "live c") auto
  show "Observer j \<notin> set (sinks c)"
    using wfD(4) [OF assms(1), of j] wfD(11) [OF assms] by auto
  show "j < length (observers c)" by (rule wfD(10) [OF assms])
  show "j \<notin> set (v_observers (views c ! m))" if "m \<noteq> n" "m < length (views c)" for m
    using wfD(11) [OF assms(1) that(2), of j] wfD(11) [OF assms] that(1) by auto
qed

lemma terminate_logs:
  assumes "wf c"
  shows "Observer j \<in> set (sinks c) \<Longrightarrow> logs (terminate e c) j = logs c j @ [ErrorEv e]"
    and "n < length (views c) \<Longrightarrow> j \<in> set (v_observers (views c ! n)) \<Longrightarrow>
           logs (terminate e c) j = logs c j @ [ErrorEv e]"
proof -
  let ?c = "c\<lparr>live := False, sinks := [], trace := trace c @ [ErrorEv e]\<rparr>"
  show "logs (terminate e c) j = logs c j @ [ErrorEv e]" if s: "Observer j \<in> set (sinks c)"
  proof -
    have "snd (observers (fold (deliver_error e) (sinks c) ?c) ! j) = snd (observers ?c ! j) @ [ErrorEv e]"
    proof (rule fold_deliver_error_full_log)
      show "distinct (sinks c)" by (rule wfD(1) [OF assms])
      show "Observer j \<in> set (sinks c)" by (rule s)
      show "j < length (observers ?c)" using wfD(3) [OF assms s] by simp
      show "j \<notin> set (v_observers (views ?c ! n))"
        if "ViewChain n \<in> set (sinks c)" "n < length (views ?c)" for n
        using wf_full_not_in_view [OF assms s, of n] that by simp
    qed
    then show ?thesis by (simp add: terminate_def logs_def)
  qed
  show "logs (terminate e c) j = logs c j @ [ErrorEv e]"
    if n: "n < length (views c)" and j: "j \<in> set (v_observers (views c ! n))"
  proof -
    note f = wf_view_observer_facts [OF assms n j]
    have "snd (observers (fold (deliver_error e) (sinks c) ?c) ! j) = snd (observers ?c ! j) @ [ErrorEv e]"
    proof (rule fold_deliver_error_view_log [where n = n])
      show "distinct (sinks c)" by (rule wfD(1) [OF assms])
      show "ViewChain n \<in> set (sinks c)" by (rule f(1))
      show "n < length (views ?c)" using n by simp
      show "j \<in> set (v_observers (views ?c ! n))" using j by simp
      show "distinct (v_observers (views ?c ! n))" using wfD(9) [OF assms n] by simp
      show "j < length (observers ?c)" using f(4) by simp
      show "Observer j \<notin> set (sinks c)" by (rule f(3))
      show "j \<notin> set (v_observers (views ?c ! m))"
        if "m \<noteq> n" "ViewChain m \<in> set (sinks c)" "m < length (views ?c)" for m
        using f(5) [of m] that by simp
    qed
    then show ?thesis by (simp add: terminate_def logs_def)
  qed
qed

lemma run_updates_dead: "\<not> live c \<Longrightarrow> run (map SetState us) c = c"
  by (induction us) (simp_all add: run_def setState_def)

lemma deliver_other:
  assumes "k \<noteq> Observer j"
    and "\<And>n. k = ViewChain n \<Longrightarrow> n < length (views c) \<Longrightarrow> j \<notin> set (v_observers (views c ! n))"
  shows "observers (deliver s k c) ! j = observers c ! j"
proof (cases k)
  case (Observer i)
  then show ?thesis using assms(1) by (simp add: tell_def)
next
  case (ViewChain n)
  then show ?thesis using assms(2) [of n] by (simp add: Let_def view_next_other)
qed

lemma fold_deliver_other:
  assumes "Observer j \<notin> set ks"
    and "\<And>n. ViewChain n \<in> set ks \<Longrightarrow> n < length (views c) \<Longrightarrow>
           j \<notin> set (v_observers (views c ! n))"
  shows "observers (fold (deliver s) ks c) ! j = observers c ! j"
  using assms
proof (induction ks arbitrary: c)
  case Nil
  then show ?case by simp
next
  case (Cons k ks)
  let ?c = "deliver s k c"
  have 1: "observers ?c ! j = observers c ! j"
    by (rule deliver_other) (use Cons.prems in auto)
  have 2: "j \<notin> set (v_observers (views ?c ! n))"
    if "ViewChain n \<in> set ks" "n < length (views ?c)" for n
    using Cons.prems(2) [of n] that by (simp add: deliver_observers_nth)
  have "observers (fold (deliver s) ks ?c) ! j = observers ?c ! j"
    by (rule Cons.IH) (use Cons.prems(1) 2 in auto)
  then show ?case using 1 by simp
qed

lemma view_next_member:
  assumes "distinct (v_observers v)" "j \<in> set (v_observers v)" "j < length os"
  shows "snd (snd (view_next rt s v os) ! j) =
           snd (os ! j) @
             (if distinctUntilChanged (v_key v) (pluck rt (v_path v) s) \<and> present (pluck rt (v_path v) s)
              then [NextValue (pluck rt (v_path v) s)] else [])"
  using assms by (simp add: view_next_def Let_def notify_member)

text \<open>An observer of a live view, under a multicast of one snapshot.\<close>

lemma fold_deliver_view_log:
  assumes "distinct ks" "ViewChain n \<in> set ks" "n < length (views c)"
    and "j \<in> set (v_observers (views c ! n))" "distinct (v_observers (views c ! n))"
    and "j < length (observers c)" "Observer j \<notin> set ks"
    and "\<And>m. m \<noteq> n \<Longrightarrow> ViewChain m \<in> set ks \<Longrightarrow> m < length (views c) \<Longrightarrow>
           j \<notin> set (v_observers (views c ! m))"
  shows "snd (observers (fold (deliver s) ks c) ! j) =
           snd (observers c ! j) @
             (if distinctUntilChanged (v_key (views c ! n)) (pluck (env c) (v_path (views c ! n)) s) \<and>
                 present (pluck (env c) (v_path (views c ! n)) s)
              then [NextValue (pluck (env c) (v_path (views c ! n)) s)] else [])"
  using assms
proof (induction ks arbitrary: c)
  case Nil
  then show ?case by simp
next
  case (Cons k ks)
  let ?c = "deliver s k c"
  show ?case
  proof (cases "k = ViewChain n")
    case True
    then have nk: "ViewChain n \<notin> set ks" using Cons.prems(1) by simp
    have "j \<notin> set (v_observers (views ?c ! m))"
      if "ViewChain m \<in> set ks" "m < length (views ?c)" for m
    proof -
      have "m \<noteq> n" using that(1) nk by auto
      then show ?thesis
        using Cons.prems(8) [of m] that by (simp add: deliver_observers_nth)
    qed
    then have "observers (fold (deliver s) ks ?c) ! j = observers ?c ! j"
      using fold_deliver_other [of j ks ?c s] Cons.prems(7) by auto
    moreover have "snd (observers ?c ! j) =
           snd (observers c ! j) @
             (if distinctUntilChanged (v_key (views c ! n)) (pluck (env c) (v_path (views c ! n)) s) \<and>
                 present (pluck (env c) (v_path (views c ! n)) s)
              then [NextValue (pluck (env c) (v_path (views c ! n)) s)] else [])"
      using True Cons.prems(3-6) view_next_member [of "views c ! n" j "observers c" "env c" s]
      by (simp add: Let_def)
    ultimately show ?thesis by simp
  next
    case False
    have 1: "observers ?c ! j = observers c ! j"
    proof (rule deliver_other)
      show "k \<noteq> Observer j" using Cons.prems(7) by auto
      show "j \<notin> set (v_observers (views c ! m))" if "k = ViewChain m" "m < length (views c)" for m
        using Cons.prems(8) [of m] that False by auto
    qed
    have vn: "views ?c ! n = views c ! n"
      using False by (cases k) (simp_all add: Let_def)
    have "snd (observers (fold (deliver s) ks ?c) ! j) =
           snd (observers ?c ! j) @
             (if distinctUntilChanged (v_key (views ?c ! n)) (pluck (env ?c) (v_path (views ?c ! n)) s) \<and>
                 present (pluck (env ?c) (v_path (views ?c ! n)) s)
              then [NextValue (pluck (env ?c) (v_path (views ?c ! n)) s)] else [])"
    proof (rule Cons.IH)
      show "distinct ks" using Cons.prems(1) by simp
      show "ViewChain n \<in> set ks" using Cons.prems(2) False by auto
      show "n < length (views ?c)" using Cons.prems(3) by simp
      show "j \<in> set (v_observers (views ?c ! n))" using Cons.prems(4) vn by simp
      show "distinct (v_observers (views ?c ! n))" using Cons.prems(5) vn by simp
      show "j < length (observers ?c)" using Cons.prems(6) by simp
      show "Observer j \<notin> set ks" using Cons.prems(7) by simp
      show "j \<notin> set (v_observers (views ?c ! m))"
        if "m \<noteq> n" "ViewChain m \<in> set ks" "m < length (views ?c)" for m
        using Cons.prems(8) [of m] that by (simp add: deliver_observers_nth)
    qed
    then show ?thesis using 1 vn by simp
  qed
qed

lemma publish_view_log:
  assumes "wf c" "n < length (views c)" "j \<in> set (v_observers (views c ! n))"
  shows "logs (publish s c) j =
           logs c j @
             (if distinctUntilChanged (v_key (views c ! n)) (pluck (env c) (v_path (views c ! n)) s) \<and>
                 present (pluck (env c) (v_path (views c ! n)) s)
              then [NextValue (pluck (env c) (v_path (views c ! n)) s)] else [])"
proof -
  let ?c = "c\<lparr>buffer := Some s, trace := trace c @ [NextState s]\<rparr>"
  note f = wf_view_observer_facts [OF assms]
  have "snd (observers (fold (deliver s) (sinks c) ?c) ! j) =
           snd (observers ?c ! j) @
             (if distinctUntilChanged (v_key (views ?c ! n)) (pluck (env ?c) (v_path (views ?c ! n)) s) \<and>
                 present (pluck (env ?c) (v_path (views ?c ! n)) s)
              then [NextValue (pluck (env ?c) (v_path (views ?c ! n)) s)] else [])"
  proof (rule fold_deliver_view_log)
    show "distinct (sinks c)" by (rule wfD(1) [OF assms(1)])
    show "ViewChain n \<in> set (sinks c)" by (rule f(1))
    show "n < length (views ?c)" using assms(2) by simp
    show "j \<in> set (v_observers (views ?c ! n))" using assms(3) by simp
    show "distinct (v_observers (views ?c ! n))" using wfD(9) [OF assms(1,2)] by simp
    show "j < length (observers ?c)" using f(4) by simp
    show "Observer j \<notin> set (sinks c)" by (rule f(3))
    show "j \<notin> set (v_observers (views ?c ! m))"
      if "m \<noteq> n" "ViewChain m \<in> set (sinks c)" "m < length (views ?c)" for m
      using f(5) [of m] that by simp
  qed
  then show ?thesis by (simp add: publish_def logs_def)
qed

section \<open>Where the notifications of a view come from\<close>

lemma ok_event_mono: "set T \<subseteq> set T' \<Longrightarrow> ok_event rt T p ev \<Longrightarrow> ok_event rt T' p ev"
  by (cases ev) (auto simp: list_ex_iff)

lemma sound_atI:
  assumes "\<And>i n ev. i < length (observers c) \<Longrightarrow> fst (observers c ! i) = PathView n \<Longrightarrow>
             ev \<in> set (snd (observers c ! i)) \<Longrightarrow>
             n < length (views c) \<and> ok_event rt T (v_path (views c ! n)) ev"
    and "\<And>n x. n < length (views c) \<Longrightarrow> v_buffer (views c ! n) = Some x \<Longrightarrow>
             ok_event rt T (v_path (views c ! n)) (NextValue x)"
    and "\<And>b. buffer c = Some b \<Longrightarrow> NextState b \<in> set T"
  shows "sound_at rt T c"
  unfolding sound_at_def using assms by blast

lemma sound_atD:
  assumes "sound_at rt T c"
  shows "i < length (observers c) \<Longrightarrow> fst (observers c ! i) = PathView n \<Longrightarrow>
             ev \<in> set (snd (observers c ! i)) \<Longrightarrow> n < length (views c)"
    and "i < length (observers c) \<Longrightarrow> fst (observers c ! i) = PathView n \<Longrightarrow>
             ev \<in> set (snd (observers c ! i)) \<Longrightarrow> ok_event rt T (v_path (views c ! n)) ev"
    and "n < length (views c) \<Longrightarrow> v_buffer (views c ! n) = Some x \<Longrightarrow>
             ok_event rt T (v_path (views c ! n)) (NextValue x)"
    and "buffer c = Some b \<Longrightarrow> NextState b \<in> set T"
  using assms unfolding sound_at_def by blast+

lemma sound_at_mono:
  assumes "set T \<subseteq> set T'" "sound_at rt T c"
  shows "sound_at rt T' c"
proof (rule sound_atI)
  show "n < length (views c) \<and> ok_event rt T' (v_path (views c ! n)) ev"
    if "i < length (observers c)" "fst (observers c ! i) = PathView n"
      "ev \<in> set (snd (observers c ! i))" for i n ev
    using sound_atD(1,2) [OF assms(2) that] ok_event_mono [OF assms(1)] by blast
  show "ok_event rt T' (v_path (views c ! n)) (NextValue x)"
    if "n < length (views c)" "v_buffer (views c ! n) = Some x" for n x
    using sound_atD(3) [OF assms(2) that] ok_event_mono [OF assms(1)] by blast
  show "NextState b \<in> set T'" if "buffer c = Some b" for b
    using sound_atD(4) [OF assms(2) that] assms(1) by blast
qed

lemma typedD:
  "typed c \<Longrightarrow> n < length (views c) \<Longrightarrow> j \<in> set (v_observers (views c ! n)) \<Longrightarrow>
     j < length (observers c) \<and> fst (observers c ! j) = PathView n"
  unfolding typed_def by blast

lemma wf_typed: "wf c \<Longrightarrow> typed c"
  unfolding typed_def using wfD(10,11) by blast

lemma typed_same_shape:
  assumes "same_shape c c'" "typed c"
  shows "typed c'"
  unfolding typed_def
  using assms(2) same_shape_lengths [OF assms(1)] same_shape_nth(1,3) [OF assms(1)]
  unfolding typed_def by auto

text \<open>Notifying observers, and changing one view, keep the provenance of events.\<close>

lemma sound_notify:
  assumes "sound_at rt T c"
    and "\<And>j m. j \<in> set js \<Longrightarrow> j < length (observers c) \<Longrightarrow>
           fst (observers c ! j) = PathView m \<Longrightarrow>
           m < length (views c) \<and> ok_event rt T (v_path (views c ! m)) e"
  shows "sound_at rt T (c\<lparr>observers := notify e js (observers c)\<rparr>)"
proof (rule sound_atI)
  let ?c = "c\<lparr>observers := notify e js (observers c)\<rparr>"
  show "n < length (views ?c) \<and> ok_event rt T (v_path (views ?c ! n)) ev"
    if "j < length (observers ?c)" "fst (observers ?c ! j) = PathView n"
      "ev \<in> set (snd (observers ?c ! j))" for j n ev
  proof -
    have j: "j < length (observers c)" using that(1) by simp
    have f: "fst (observers c ! j) = PathView n"
      using that(2) j nth_map_eq [OF fst_notify, of j "observers c" e js] by simp
    show ?thesis
    proof (cases "ev \<in> set (snd (observers c ! j))")
      case True
      then show ?thesis using sound_atD(1,2) [OF assms(1) j f] by simp
    next
      case False
      have "j \<in> set js"
        using False that(3) notify_other [of j js e "observers c"] by (cases "j \<in> set js") auto
      moreover have "ev = e" using False that(3) notify_events [OF j, of e js] by auto
      ultimately show ?thesis using assms(2) [OF _ j f] by simp
    qed
  qed
  show "ok_event rt T (v_path (views ?c ! n)) (NextValue x)"
    if "n < length (views ?c)" "v_buffer (views ?c ! n) = Some x" for n x
    using sound_atD(3) [OF assms(1), of n x] that by simp
  show "NextState b \<in> set T" if "buffer ?c = Some b" for b
    using sound_atD(4) [OF assms(1), of b] that by simp
qed

lemma sound_view:
  assumes "sound_at rt T c" "n < length (views c)" "v_path v' = v_path (views c ! n)"
    and "\<And>x. v_buffer v' = Some x \<Longrightarrow> ok_event rt T (v_path v') (NextValue x)"
  shows "sound_at rt T (c\<lparr>views := (views c)[n := v']\<rparr>)"
proof (rule sound_atI)
  let ?c = "c\<lparr>views := (views c)[n := v']\<rparr>"
  have p: "v_path (views ?c ! m) = v_path (views c ! m)" if "m < length (views c)" for m
    using that assms(2,3) by (cases "m = n") simp_all
  show "m < length (views ?c) \<and> ok_event rt T (v_path (views ?c ! m)) ev"
    if "j < length (observers ?c)" "fst (observers ?c ! j) = PathView m"
      "ev \<in> set (snd (observers ?c ! j))" for j m ev
  proof -
    have "m < length (views c) \<and> ok_event rt T (v_path (views c ! m)) ev"
      using sound_atD(1,2) [OF assms(1), of j m ev] that by simp
    then show ?thesis using p [of m] by simp
  qed
  show "ok_event rt T (v_path (views ?c ! m)) (NextValue x)"
    if "m < length (views ?c)" "v_buffer (views ?c ! m) = Some x" for m x
  proof (cases "m = n")
    case True
    then show ?thesis using that assms(2) assms(4) [of x] by simp
  next
    case False
    then show ?thesis using sound_atD(3) [OF assms(1), of m x] that by simp
  qed
  show "NextState b \<in> set T" if "buffer ?c = Some b" for b
    using sound_atD(4) [OF assms(1), of b] that by simp
qed

lemma notify_single [simp]: "notify e [i] os = tell e i os"
  by (simp add: notify_def)

lemma notify_none [simp]: "notify e [] os = os"
  by (simp add: notify_def)

lemma sound_deliver:
  assumes "typed c" "sound_at rt T c" "NextState s \<in> set T"
    and "\<And>i. k = Observer i \<Longrightarrow> i < length (observers c) \<Longrightarrow> fst (observers c ! i) = FullState"
    and "env c = rt"
  shows "sound_at rt T (deliver s k c)"
proof (cases k)
  case (Observer i)
  have "sound_at rt T (c\<lparr>observers := notify (NextState s) [i] (observers c)\<rparr>)"
    by (rule sound_notify [OF assms(2)]) (use assms(4) Observer in auto)
  then show ?thesis using Observer by simp
next
  case (ViewChain n)
  show ?thesis
  proof (cases "n < length (views c)")
    case False
    then show ?thesis using ViewChain assms(2) by simp
  next
    case True
    let ?v = "views c ! n"
    let ?x = "pluck rt (v_path ?v) s"
    have ok: "present ?x \<Longrightarrow> ok_event rt T (v_path ?v) (NextValue ?x)"
      using assms(3) by (auto simp: list_ex_iff intro!: bexI [of _ "NextState s"])
    define v' where "v' = fst (view_next rt s ?v (observers c))"
    define js where "js = (if distinctUntilChanged (v_key ?v) ?x \<and> present ?x
                              then v_observers ?v else [])"
    have r: "view_next rt s ?v (observers c) = (v', notify (NextValue ?x) js (observers c))"
      by (simp add: v'_def js_def view_next_def Let_def)
    have 1: "sound_at rt T (c\<lparr>views := (views c)[n := v']\<rparr>)"
    proof (rule sound_view [OF assms(2) True])
      show "v_path v' = v_path ?v" by (simp add: v'_def)
      show "ok_event rt T (v_path v') (NextValue x)" if "v_buffer v' = Some x" for x
      proof (cases "distinctUntilChanged (v_key ?v) ?x \<and> present ?x")
        case True
        then have "x = ?x" using that by (simp add: v'_def view_next_def Let_def)
        then show ?thesis using ok True by (simp add: v'_def)
      next
        case False
        then have "v_buffer ?v = Some x" using that
          by (auto simp: v'_def view_next_def Let_def split: if_splits)
        then show ?thesis using sound_atD(3) [OF assms(2) \<open>n < length (views c)\<close>] by (simp add: v'_def)
      qed
    qed
    have 2: "sound_at rt T ((c\<lparr>views := (views c)[n := v']\<rparr>)
        \<lparr>observers := notify (NextValue ?x) js (observers (c\<lparr>views := (views c)[n := v']\<rparr>))\<rparr>)"
    proof (rule sound_notify [OF 1])
      fix j m
      assume j: "j \<in> set js" "j < length (observers (c\<lparr>views := (views c)[n := v']\<rparr>))"
        "fst (observers (c\<lparr>views := (views c)[n := v']\<rparr>) ! j) = PathView m"
      then have px: "present ?x" and jv: "j \<in> set (v_observers ?v)"
        by (auto simp: js_def split: if_splits)
      have "m = n" using typedD [OF assms(1) True jv] j(3) by simp
      then show "m < length (views (c\<lparr>views := (views c)[n := v']\<rparr>)) \<and>
          ok_event rt T (v_path (views (c\<lparr>views := (views c)[n := v']\<rparr>) ! m)) (NextValue ?x)"
        using True ok [OF px] by (simp add: v'_def)
    qed
    show ?thesis using ViewChain True 2 assms(5) by (simp add: r Let_def)
  qed
qed

lemma typed_deliver: "typed c \<Longrightarrow> typed (deliver s k c)"
  using typed_same_shape [OF deliver_shape] .

lemma sound_fold_deliver:
  assumes "typed c" "sound_at rt T c" "NextState s \<in> set T"
    and "\<And>i. Observer i \<in> set ks \<Longrightarrow> i < length (observers c) \<Longrightarrow>
           fst (observers c ! i) = FullState"
    and "env c = rt"
  shows "sound_at rt T (fold (deliver s) ks c)"
  using assms
proof (induction ks arbitrary: c)
  case Nil
  then show ?case by simp
next
  case (Cons k ks)
  let ?c = "deliver s k c"
  have 1: "sound_at rt T ?c"
    by (rule sound_deliver [OF Cons.prems(1-3) _ Cons.prems(5)]) (use Cons.prems(4) in auto)
  have "sound_at rt T (fold (deliver s) ks ?c)"
  proof (rule Cons.IH [OF typed_deliver [OF Cons.prems(1)] 1 Cons.prems(3)])
    fix i assume i: "Observer i \<in> set ks" "i < length (observers ?c)"
    then have "fst (observers ?c ! i) = fst (observers c ! i)"
      using nth_map_eq [OF deliver_fields(11), of i c s k] by simp
    then show "fst (observers ?c ! i) = FullState" using Cons.prems(4) [of i] i by simp
  next
    show "env ?c = rt" using Cons.prems(5) by simp
  qed
  then show ?case by simp
qed

lemma sound_publish:
  assumes "wf c" "sound_at rt (trace c) c" "env c = rt"
  shows "sound_at rt (trace (publish s c)) (publish s c)"
proof -
  let ?T = "trace c @ [NextState s]"
  let ?c = "c\<lparr>buffer := Some s, trace := ?T\<rparr>"
  have m: "sound_at rt ?T c" by (rule sound_at_mono [OF _ assms(2)]) auto
  have 0: "sound_at rt ?T ?c"
  proof (rule sound_atI)
    show "n < length (views ?c) \<and> ok_event rt ?T (v_path (views ?c ! n)) ev"
      if "i < length (observers ?c)" "fst (observers ?c ! i) = PathView n"
        "ev \<in> set (snd (observers ?c ! i))" for i n ev
      using sound_atD(1,2) [OF m, of i n ev] that by simp
    show "ok_event rt ?T (v_path (views ?c ! n)) (NextValue x)"
      if "n < length (views ?c)" "v_buffer (views ?c ! n) = Some x" for n x
      using sound_atD(3) [OF m, of n x] that by simp
    show "NextState b \<in> set ?T" if "buffer ?c = Some b" for b using that by simp
  qed
  have t: "typed ?c" using wf_typed [OF assms(1)] by (simp add: typed_def)
  have "sound_at rt ?T (fold (deliver s) (sinks c) ?c)"
    by (rule sound_fold_deliver [OF t 0]) (use wfD(4) [OF assms(1)] assms(3) in simp_all)
  then show ?thesis by (simp add: publish_def)
qed


lemma typed_deliver_error: "typed c \<Longrightarrow> typed (deliver_error e k c)"
proof -
  assume t: "typed c"
  show ?thesis
    unfolding typed_def
  proof (intro allI impI ballI)
    fix n j
    assume n: "n < length (views (deliver_error e k c))"
      and j: "j \<in> set (v_observers (views (deliver_error e k c) ! n))"
    have n': "n < length (views c)" using n by simp
    then have "j \<in> set (v_observers (views c ! n))"
      using j deliver_error_observers_nth [of n c e k] by auto
    then have "j < length (observers c) \<and> fst (observers c ! j) = PathView n"
      using typedD [OF t n'] by simp
    then show "j < length (observers (deliver_error e k c)) \<and>
        fst (observers (deliver_error e k c) ! j) = PathView n"
      using nth_map_eq [OF deliver_error_fields(11), of j c e k] by simp
  qed
qed

lemma sound_deliver_error:
  assumes "typed c" "sound_at rt T c" "ErrorEv e \<in> set T"
    and "\<And>i. k = Observer i \<Longrightarrow> i < length (observers c) \<Longrightarrow> fst (observers c ! i) = FullState"
  shows "sound_at rt T (deliver_error e k c)"
proof (cases k)
  case (Observer i)
  have "sound_at rt T (c\<lparr>observers := notify (ErrorEv e) [i] (observers c)\<rparr>)"
    by (rule sound_notify [OF assms(2)]) (use assms(4) Observer in auto)
  then show ?thesis using Observer by simp
next
  case (ViewChain n)
  show ?thesis
  proof (cases "n < length (views c)")
    case False
    then show ?thesis using ViewChain assms(2) by simp
  next
    case True
    let ?v = "views c ! n"
    define v' where "v' = ?v\<lparr>v_live := False, v_observers := []\<rparr>"
    have 1: "sound_at rt T (c\<lparr>views := (views c)[n := v']\<rparr>)"
      by (rule sound_view [OF assms(2) True])
         (use sound_atD(3) [OF assms(2) True] in \<open>simp_all add: v'_def\<close>)
    have 2: "sound_at rt T ((c\<lparr>views := (views c)[n := v']\<rparr>)
        \<lparr>observers := notify (ErrorEv e) (v_observers ?v) (observers (c\<lparr>views := (views c)[n := v']\<rparr>))\<rparr>)"
    proof (rule sound_notify [OF 1])
      fix j m
      assume j: "j \<in> set (v_observers ?v)" "j < length (observers (c\<lparr>views := (views c)[n := v']\<rparr>))"
        "fst (observers (c\<lparr>views := (views c)[n := v']\<rparr>) ! j) = PathView m"
      have "m = n" using typedD [OF assms(1) True j(1)] j(3) by simp
      then show "m < length (views (c\<lparr>views := (views c)[n := v']\<rparr>)) \<and>
          ok_event rt T (v_path (views (c\<lparr>views := (views c)[n := v']\<rparr>) ! m)) (ErrorEv e)"
        using True assms(3) by simp
    qed
    show ?thesis using ViewChain True 2 by (simp add: view_error_def Let_def v'_def)
  qed
qed

lemma sound_fold_deliver_error:
  assumes "typed c" "sound_at rt T c" "ErrorEv e \<in> set T"
    and "\<And>i. Observer i \<in> set ks \<Longrightarrow> i < length (observers c) \<Longrightarrow>
           fst (observers c ! i) = FullState"
  shows "sound_at rt T (fold (deliver_error e) ks c)"
  using assms
proof (induction ks arbitrary: c)
  case Nil
  then show ?case by simp
next
  case (Cons k ks)
  let ?c = "deliver_error e k c"
  have 1: "sound_at rt T ?c"
    by (rule sound_deliver_error [OF Cons.prems(1-3)]) (use Cons.prems(4) in auto)
  have "sound_at rt T (fold (deliver_error e) ks ?c)"
  proof (rule Cons.IH [OF typed_deliver_error [OF Cons.prems(1)] 1 Cons.prems(3)])
    fix i assume i: "Observer i \<in> set ks" "i < length (observers ?c)"
    then have "fst (observers ?c ! i) = fst (observers c ! i)"
      using nth_map_eq [OF deliver_error_fields(11), of i c e k] by simp
    then show "fst (observers ?c ! i) = FullState" using Cons.prems(4) [of i] i by simp
  qed
  then show ?case by simp
qed

lemma sound_fields:
  assumes "sound_at rt T c" "observers c' = observers c" "views c' = views c"
    "buffer c' = buffer c \<or> buffer c' = None"
  shows "sound_at rt T c'"
proof (rule sound_atI)
  show "n < length (views c') \<and> ok_event rt T (v_path (views c' ! n)) ev"
    if "i < length (observers c')" "fst (observers c' ! i) = PathView n"
      "ev \<in> set (snd (observers c' ! i))" for i n ev
    using sound_atD(1,2) [OF assms(1), of i n ev] that assms(2,3) by simp
  show "ok_event rt T (v_path (views c' ! n)) (NextValue x)"
    if "n < length (views c')" "v_buffer (views c' ! n) = Some x" for n x
    using sound_atD(3) [OF assms(1), of n x] that assms(3) by simp
  show "NextState b \<in> set T" if "buffer c' = Some b" for b
    using sound_atD(4) [OF assms(1), of b] that assms(4) by auto
qed

lemma sound_terminate:
  assumes "wf c" "sound_at rt (trace c) c"
  shows "sound_at rt (trace (terminate e c)) (terminate e c)"
proof -
  let ?T = "trace c @ [ErrorEv e]"
  let ?c = "c\<lparr>live := False, sinks := [], trace := ?T\<rparr>"
  have m: "sound_at rt ?T c" by (rule sound_at_mono [OF _ assms(2)]) auto
  have 0: "sound_at rt ?T ?c" by (rule sound_fields [OF m]) simp_all
  have t: "typed ?c" using wf_typed [OF assms(1)] by (simp add: typed_def)
  have "sound_at rt ?T (fold (deliver_error e) (sinks c) ?c)"
    by (rule sound_fold_deliver_error [OF t 0]) (use wfD(4) [OF assms(1)] in simp_all)
  then show ?thesis by (simp add: terminate_def)
qed

lemma sound_setState:
  assumes "wf c" "sound_at rt (trace c) c" "env c = rt"
  shows "sound_at rt (trace (setState u c)) (setState u c)"
proof (cases "live c")
  case False
  then show ?thesis using assms(2) by (simp add: setState_def)
next
  case True
  show ?thesis
  proof (cases "accumulator (seed c) u")
    case (Inl e)
    have "sound_at rt (trace (note_calls u c)) (note_calls u c)"
      by (rule sound_fields [of _ _ c]) (use assms(2) in simp_all)
    then show ?thesis
      using True Inl sound_terminate [OF wf_note_calls [OF assms(1)]] by (simp add: setState_def)
  next
    case (Inr s)
    let ?c = "(note_calls u c)\<lparr>seed := s\<rparr>"
    have "same_shape c ?c" by (simp add: same_shape_def)
    then have w: "wf ?c" using assms(1) wf_same_shape by blast
    have "sound_at rt (trace ?c) ?c" by (rule sound_fields [of _ _ c]) (use assms(2) in simp_all)
    then show ?thesis using True Inr sound_publish [OF w] assms(3) by (simp add: setState_def)
  qed
qed

lemma sound_getState:
  assumes "sound_at rt (trace c) c"
  shows "sound_at rt (trace (snd (getState p c))) (snd (getState p c))"
proof (cases "p = []")
  case True
  then show ?thesis using assms by (simp add: getState_def)
next
  case False
  define v0 where "v0 = \<lparr>v_path = p, v_live = False, v_key = None,
                                 v_buffer = None, v_observers = []\<rparr>"
  define c' where "c' = c\<lparr>views := views c @ [v0]\<rparr>"
  have eq: "snd (getState p c) = c'" using False by (simp add: getState_def c'_def v0_def)
  have "sound_at rt (trace c) c'"
  proof (rule sound_atI)
    show "n < length (views c') \<and> ok_event rt (trace c) (v_path (views c' ! n)) ev"
      if "i < length (observers c')" "fst (observers c' ! i) = PathView n"
        "ev \<in> set (snd (observers c' ! i))" for i n ev
      using sound_atD(1,2) [OF assms, of i n ev] that by (simp add: c'_def nth_append)
    show "ok_event rt (trace c) (v_path (views c' ! n)) (NextValue x)"
      if "n < length (views c')" "v_buffer (views c' ! n) = Some x" for n x
      using sound_atD(3) [OF assms, of n x] that
      by (cases "n < length (views c)") (simp_all add: c'_def nth_append v0_def)
    show "NextState b \<in> set (trace c)" if "buffer c' = Some b" for b
      using sound_atD(4) [OF assms, of b] that by (simp add: c'_def)
  qed
  then show ?thesis by (simp add: eq c'_def)
qed

lemma sound_subscribe_state:
  assumes "typed c" "sound_at rt T c"
    and "\<And>i. k = Observer i \<Longrightarrow> i < length (observers c) \<Longrightarrow> fst (observers c ! i) = FullState"
    and "env c = rt"
  shows "sound_at rt T (subscribe_state k c)"
proof (cases "live c")
  case False
  have "sound_at rt T (c\<lparr>live := True, seed := initialState c, buffer := None, sinks := [k]\<rparr>)"
    by (rule sound_fields [OF assms(2)]) simp_all
  then show ?thesis using False by (simp add: subscribe_state_def)
next
  case True
  define c' where "c' = (case buffer c of None \<Rightarrow> c | Some b \<Rightarrow> deliver b k c)"
  have "sound_at rt T c'"
  proof (cases "buffer c")
    case None
    then show ?thesis using assms(2) by (simp add: c'_def)
  next
    case (Some b)
    have "sound_at rt T (deliver b k c)"
      by (rule sound_deliver [OF assms(1,2) sound_atD(4) [OF assms(2) Some] assms(3,4)])
    then show ?thesis using Some by (simp add: c'_def)
  qed
  then have "sound_at rt T (c'\<lparr>sinks := sinks c' @ [k]\<rparr>)"
    by (rule sound_fields) simp_all
  then show ?thesis using True by (simp add: subscribe_state_def Let_def c'_def)
qed


lemma sound_new_observer:
  assumes "sound_at rt T c"
  shows "sound_at rt T (c\<lparr>observers := observers c @ [(h, [])]\<rparr>)"
proof (rule sound_atI)
  let ?c = "c\<lparr>observers := observers c @ [(h, [])]\<rparr>"
  show "n < length (views ?c) \<and> ok_event rt T (v_path (views ?c ! n)) ev"
    if "i < length (observers ?c)" "fst (observers ?c ! i) = PathView n"
      "ev \<in> set (snd (observers ?c ! i))" for i n ev
  proof (cases "i < length (observers c)")
    case True
    then show ?thesis using sound_atD(1,2) [OF assms, of i n ev] that by (simp add: nth_append)
  next
    case False
    then have "i = length (observers c)" using that(1) by simp
    then show ?thesis using that(3) by simp
  qed
  show "ok_event rt T (v_path (views ?c ! n)) (NextValue x)"
    if "n < length (views ?c)" "v_buffer (views ?c ! n) = Some x" for n x
    using sound_atD(3) [OF assms, of n x] that by simp
  show "NextState b \<in> set T" if "buffer ?c = Some b" for b
    using sound_atD(4) [OF assms, of b] that by simp
qed

lemma sound_subscribe:
  assumes "wf c" "sound_at rt T c" "env c = rt"
  shows "sound_at rt T (snd (subscribe h c))"
proof -
  define i where "i = length (observers c)"
  define c0 where "c0 = c\<lparr>observers := observers c @ [(h, [])]\<rparr>"
  have s0: "sound_at rt T c0" unfolding c0_def by (rule sound_new_observer [OF assms(2)])
  have t0: "typed c0" unfolding c0_def by (rule wf_typed [OF wf_new_observer [OF assms(1)]])
  have c0: "views c0 = views c" "i < length (observers c0)"
    "fst (observers c0 ! i) = h" "length (observers c0) = Suc i"
    by (simp_all add: c0_def i_def)
  show ?thesis
  proof (cases h)
    case FullState
    have "sound_at rt T (subscribe_state (Observer i) c0)"
      by (rule sound_subscribe_state [OF t0 s0]) (use c0 FullState assms(3) in \<open>simp_all add: c0_def\<close>)
    then show ?thesis using FullState by (simp add: subscribe_def Let_def c0_def i_def)
  next
    case (PathView n)
    show ?thesis
    proof (cases "n < length (views c)")
      case False
      then show ?thesis using PathView s0 by (simp add: subscribe_def Let_def c0_def)
    next
      case n: True
      then have n0: "n < length (views c0)" using c0 by simp
      let ?v = "views c0 ! n"
      show ?thesis
      proof (cases "v_live (views c ! n)")
        case True
        define v' where "v' = ?v\<lparr>v_observers := v_observers ?v @ [i]\<rparr>"
        define js where "js = (case v_buffer ?v of None \<Rightarrow> [] | Some x \<Rightarrow> [i])"
        define e where "e = (case v_buffer ?v of None \<Rightarrow> NextValue VNull | Some x \<Rightarrow> NextValue x)"
        define c1 where "c1 = c0\<lparr>views := (views c0)[n := v']\<rparr>"
        have eq: "snd (subscribe h c) = c1\<lparr>observers := notify e js (observers c1)\<rparr>"
          using PathView n True
          by (simp add: subscribe_def Let_def c0_def i_def c1_def v'_def js_def e_def
              split: option.splits)
        have 1: "sound_at rt T c1"
          unfolding c1_def
          by (rule sound_view [OF s0 n0]) (use sound_atD(3) [OF s0 n0] in \<open>simp_all add: v'_def\<close>)
        have "sound_at rt T (c1\<lparr>observers := notify e js (observers c1)\<rparr>)"
        proof (rule sound_notify [OF 1])
          fix j m
          assume j: "j \<in> set js" "j < length (observers c1)" "fst (observers c1 ! j) = PathView m"
          then obtain x where x: "v_buffer ?v = Some x" "j = i" "e = NextValue x"
            by (cases "v_buffer ?v") (auto simp: js_def e_def)
          have "m = n" using j(3) x(2) c0(3) PathView by (simp add: c1_def)
          then show "m < length (views c1) \<and> ok_event rt T (v_path (views c1 ! m)) e"
            using n0 sound_atD(3) [OF s0 n0 x(1)] x(3) by (simp add: c1_def v'_def)
        qed
        then show ?thesis by (simp add: eq)
      next
        case False
        define v' where "v' = ?v\<lparr>v_live := True, v_key := None,
                                 v_buffer := None, v_observers := [i]\<rparr>"
        define c1 where "c1 = c0\<lparr>views := (views c0)[n := v']\<rparr>"
        have eq: "snd (subscribe h c) = subscribe_state (ViewChain n) c1"
          using PathView n False
          by (simp add: subscribe_def Let_def c0_def i_def c1_def v'_def)
        have 1: "sound_at rt T c1"
          unfolding c1_def by (rule sound_view [OF s0 n0]) (simp_all add: v'_def)
        have 2: "typed c1"
          unfolding typed_def
        proof (intro allI impI ballI)
          fix m j
          assume m: "m < length (views c1)" and j: "j \<in> set (v_observers (views c1 ! m))"
          show "j < length (observers c1) \<and> fst (observers c1 ! j) = PathView m"
          proof (cases "m = n")
            case True
            then have "j = i" using j n0 by (simp add: c1_def v'_def)
            then show ?thesis using c0 PathView True by (simp add: c1_def)
          next
            case False
            then have "j \<in> set (v_observers (views c0 ! m))" "m < length (views c0)"
              using j m by (simp_all add: c1_def)
            then show ?thesis using typedD [OF t0, of m j] by (simp add: c1_def)
          qed
        qed
        have "sound_at rt T (subscribe_state (ViewChain n) c1)"
          by (rule sound_subscribe_state [OF 2 1]) (use assms(3) in \<open>simp_all add: c1_def c0_def\<close>)
        then show ?thesis by (simp add: eq)
      qed
    qed
  qed
qed

lemma sound_step:
  assumes "wf c" "sound_at rt (trace c) c" "env c = rt"
  shows "sound_at rt (trace (step a c)) (step a c)"
proof (cases a)
  case (SetState u)
  then show ?thesis using sound_setState [OF assms] by simp
next
  case (GetState p)
  then show ?thesis using sound_getState [OF assms(2)] by simp
next
  case (Subscribe h)
  then show ?thesis using sound_subscribe [OF assms(1) _ assms(3), of "trace c" h] assms(2) by simp
qed

lemma sound_run: "sound_at rt (trace (run cs (setupState rt init))) (run cs (setupState rt init))"
proof (induction cs rule: rev_induct)
  case Nil
  then show ?case by (simp add: run_def setupState_def sound_at_def)
next
  case (snoc a cs)
  then show ?case
    using sound_step [OF wf_reachable, of rt cs rt init a] by (simp add: run_snoc setupState_def)
qed

subsection \<open>The key of \<open>distinctUntilChanged\<close>\<close>

text \<open>In every reachable container the key of a subscribed view stands for the candidate
  of the snapshot that \<open>state$\<close> published last.\<close>

lemma view_next_follows:
  "distinctUntilChanged (v_key (fst (view_next rt s v os))) x =
     (\<not> strict_eq (pluck rt (v_path v) s) x)"
proof (cases "distinctUntilChanged (v_key v) (pluck rt (v_path v) s)")
  case True
  then show ?thesis by (simp add: view_next_def Let_def)
next
  case False
  then obtain k where k: "v_key v = Some k" "strict_eq k (pluck rt (v_path v) s)"
    by (cases "v_key v") auto
  have "strict_eq k x = strict_eq (pluck rt (v_path v) s) x"
    using k(2) strict_eq_sym strict_eq_trans by blast
  then show ?thesis using False k by (simp add: view_next_def Let_def)
qed

lemma deliver_view_keep:
  "k \<noteq> ViewChain n \<Longrightarrow> views (deliver s k c) ! n = views c ! n"
  by (cases k) (simp_all add: Let_def)

lemma fold_deliver_view_keep:
  "ViewChain n \<notin> set ks \<Longrightarrow> views (fold (deliver s) ks c) ! n = views c ! n"
proof (induction ks arbitrary: c)
  case Nil
  then show ?case by simp
next
  case (Cons k ks)
  then have "views (fold (deliver s) ks (deliver s k c)) ! n = views (deliver s k c) ! n"
    by simp
  moreover have "k \<noteq> ViewChain n" using Cons.prems by auto
  ultimately show ?case using deliver_view_keep [of k n s c] by simp
qed

lemma fold_deliver_view_at:
  "distinct ks \<Longrightarrow> ViewChain n \<in> set ks \<Longrightarrow> n < length (views c) \<Longrightarrow>
   \<exists>os. views (fold (deliver s) ks c) ! n = fst (view_next (env c) s (views c ! n) os)"
proof (induction ks arbitrary: c)
  case Nil
  then show ?case by simp
next
  case (Cons k ks)
  show ?case
  proof (cases "k = ViewChain n")
    case True
    then have "ViewChain n \<notin> set ks" using Cons.prems(1) by simp
    then have "views (fold (deliver s) ks (deliver s k c)) ! n = views (deliver s k c) ! n"
      by (rule fold_deliver_view_keep)
    then show ?thesis using True Cons.prems(3) by (auto simp: Let_def)
  next
    case False
    then have "\<exists>os. views (fold (deliver s) ks (deliver s k c)) ! n =
        fst (view_next (env (deliver s k c)) s (views (deliver s k c) ! n) os)"
      using Cons.prems by (intro Cons.IH) auto
    then show ?thesis using False deliver_view_keep [of k n s c] by simp
  qed
qed

lemma keyedI:
  assumes "\<And>n x. n < length (views c) \<Longrightarrow> v_live (views c ! n) \<Longrightarrow>
     distinctUntilChanged (v_key (views c ! n)) x =
       (case buffer c of None \<Rightarrow> True
        | Some b \<Rightarrow> \<not> strict_eq (pluck (env c) (v_path (views c ! n)) b) x)"
  shows "keyed c"
  unfolding keyed_def using assms by blast

lemma keyedD:
  "keyed c \<Longrightarrow> n < length (views c) \<Longrightarrow> v_live (views c ! n) \<Longrightarrow>
     distinctUntilChanged (v_key (views c ! n)) x =
       (case buffer c of None \<Rightarrow> True
        | Some b \<Rightarrow> \<not> strict_eq (pluck (env c) (v_path (views c ! n)) b) x)"
  unfolding keyed_def by blast

lemma keyed_fields:
  "keyed c \<Longrightarrow> views c' = views c \<Longrightarrow> buffer c' = buffer c \<Longrightarrow> env c' = env c \<Longrightarrow> keyed c'"
  unfolding keyed_def by (simp split: option.splits)

lemma wf_dead_views:
  assumes "wf c" "\<not> live c" "n < length (views c)"
  shows "\<not> v_live (views c ! n)"
  using wfD(2) [OF assms(1,2)] wfD(7) [OF assms(1,3)] by auto

lemma keyed_publish:
  assumes "wf c"
  shows "keyed (publish s c)"
proof (rule keyedI)
  fix n x
  assume n: "n < length (views (publish s c))" and l: "v_live (views (publish s c) ! n)"
  have n': "n < length (views c)" using n by simp
  have "v_live (views (publish s c) ! n) = v_live (views c ! n)"
    using same_shape_nth(2) [OF publish_shape n'] .
  then have "ViewChain n \<in> set (sinks c)" using l wfD(7) [OF assms n'] by simp
  then obtain os where os: "views (publish s c) ! n = fst (view_next (env c) s (views c ! n) os)"
    using fold_deliver_view_at [of "sinks c" n "c\<lparr>buffer := Some s, trace := trace c @ [NextState s]\<rparr>" s]
      wfD(1) [OF assms] n' by (auto simp: publish_def)
  show "distinctUntilChanged (v_key (views (publish s c) ! n)) x =
       (case buffer (publish s c) of None \<Rightarrow> True
        | Some b \<Rightarrow> \<not> strict_eq (pluck (env (publish s c)) (v_path (views (publish s c) ! n)) b) x)"
    by (simp add: os view_next_follows)
qed

lemma keyed_terminate:
  assumes "wf c"
  shows "keyed (terminate e c)"
proof (rule keyedI)
  fix n x
  assume n: "n < length (views (terminate e c))" and l: "v_live (views (terminate e c) ! n)"
  have "\<not> v_live (views (terminate e c) ! n)"
    using wf_dead_views [OF wf_terminate [OF assms], of e n] n by simp
  then show "distinctUntilChanged (v_key (views (terminate e c) ! n)) x =
       (case buffer (terminate e c) of None \<Rightarrow> True
        | Some b \<Rightarrow> \<not> strict_eq (pluck (env (terminate e c)) (v_path (views (terminate e c) ! n)) b) x)"
    using l by simp
qed

lemma keyed_setState:
  assumes "wf c" "keyed c"
  shows "keyed (setState u c)"
proof (cases "live c")
  case False
  then show ?thesis using assms(2) by (simp add: setState_def)
next
  case True
  show ?thesis
  proof (cases "accumulator (seed c) u")
    case (Inl e)
    then show ?thesis
      using True keyed_terminate [OF wf_note_calls [OF assms(1)]] by (simp add: setState_def)
  next
    case (Inr s)
    have "same_shape c ((note_calls u c)\<lparr>seed := s\<rparr>)" by (simp add: same_shape_def)
    then have "wf ((note_calls u c)\<lparr>seed := s\<rparr>)" using assms(1) wf_same_shape by blast
    then show ?thesis using True Inr keyed_publish by (simp add: setState_def)
  qed
qed

lemma keyed_getState:
  assumes "keyed c"
  shows "keyed (snd (getState p c))"
proof (cases "p = []")
  case True
  then show ?thesis using assms by (simp add: getState_def)
next
  case False
  show ?thesis
  proof (rule keyedI)
    fix n x
    let ?c = "snd (getState p c)"
    assume n: "n < length (views ?c)" and l: "v_live (views ?c ! n)"
    have "n < length (views c)"
      using n l False by (cases "n < length (views c)") (auto simp: getState_def nth_append)
    then show "distinctUntilChanged (v_key (views ?c ! n)) x =
       (case buffer ?c of None \<Rightarrow> True
        | Some b \<Rightarrow> \<not> strict_eq (pluck (env ?c) (v_path (views ?c ! n)) b) x)"
      using keyedD [OF assms, of n x] l False
      by (simp add: getState_def nth_append split: option.splits)
  qed
qed


lemma keyed_subscribe_state_observer:
  assumes "keyed c" "\<And>n. \<not> live c \<Longrightarrow> n < length (views c) \<Longrightarrow> \<not> v_live (views c ! n)"
  shows "keyed (subscribe_state (Observer i) c)"
proof (cases "live c")
  case True
  have "views (subscribe_state (Observer i) c) = views c"
    "buffer (subscribe_state (Observer i) c) = buffer c"
    using True by (simp_all add: subscribe_state_def Let_def split: option.splits)
  then show ?thesis using keyed_fields [OF assms(1)] by simp
next
  case False
  have v: "views (subscribe_state (Observer i) c) = views c"
    using False by (simp add: subscribe_state_def)
  show ?thesis
    by (rule keyedI) (use assms(2) [OF False] v in auto)
qed

lemma keyed_subscribe_state_view:
  assumes n: "n < length (views c)" "v_key (views c ! n) = None"
    and others: "\<And>m x. m < length (views c) \<Longrightarrow> m \<noteq> n \<Longrightarrow> v_live (views c ! m) \<Longrightarrow>
       live c \<and> distinctUntilChanged (v_key (views c ! m)) x =
       (case buffer c of None \<Rightarrow> True
        | Some b \<Rightarrow> \<not> strict_eq (pluck (env c) (v_path (views c ! m)) b) x)"
  shows "keyed (subscribe_state (ViewChain n) c)"
proof (cases "live c")
  case False
  have v: "views (subscribe_state (ViewChain n) c) = views c"
    "buffer (subscribe_state (ViewChain n) c) = None"
    using False by (simp_all add: subscribe_state_def)
  show ?thesis
  proof (rule keyedI)
    fix m x
    assume m: "m < length (views (subscribe_state (ViewChain n) c))"
      "v_live (views (subscribe_state (ViewChain n) c) ! m)"
    have "m = n" using others [of m] m False v by auto
    then show "distinctUntilChanged (v_key (views (subscribe_state (ViewChain n) c) ! m)) x =
       (case buffer (subscribe_state (ViewChain n) c) of None \<Rightarrow> True
        | Some b \<Rightarrow> \<not> strict_eq (pluck (env (subscribe_state (ViewChain n) c))
             (v_path (views (subscribe_state (ViewChain n) c) ! m)) b) x)"
      using v n by simp
  qed
next
  case True
  show ?thesis
  proof (cases "buffer c")
    case None
    have v: "views (subscribe_state (ViewChain n) c) = views c"
      "buffer (subscribe_state (ViewChain n) c) = None"
      using True None by (simp_all add: subscribe_state_def)
    show ?thesis
    proof (rule keyedI)
      fix m x
      assume m: "m < length (views (subscribe_state (ViewChain n) c))"
        "v_live (views (subscribe_state (ViewChain n) c) ! m)"
      have "distinctUntilChanged (v_key (views c ! m)) x"
        using others [of m x] m v n None by (cases "m = n") auto
      then show "distinctUntilChanged (v_key (views (subscribe_state (ViewChain n) c) ! m)) x =
         (case buffer (subscribe_state (ViewChain n) c) of None \<Rightarrow> True
          | Some b \<Rightarrow> \<not> strict_eq (pluck (env (subscribe_state (ViewChain n) c))
               (v_path (views (subscribe_state (ViewChain n) c) ! m)) b) x)"
        using v by simp
    qed
  next
    case (Some b)
    have v: "views (subscribe_state (ViewChain n) c) =
        (views c)[n := fst (view_next (env c) b (views c ! n) (observers c))]"
      "buffer (subscribe_state (ViewChain n) c) = Some b"
      using True Some n by (simp_all add: subscribe_state_def Let_def)
    show ?thesis
    proof (rule keyedI)
      fix m x
      assume m: "m < length (views (subscribe_state (ViewChain n) c))"
        "v_live (views (subscribe_state (ViewChain n) c) ! m)"
      have "distinctUntilChanged (v_key (views (subscribe_state (ViewChain n) c) ! m)) x =
          (\<not> strict_eq (pluck (env c) (v_path (views (subscribe_state (ViewChain n) c) ! m)) b) x)"
      proof (cases "m = n")
        case True
        then show ?thesis using v n by (simp add: view_next_follows)
      next
        case False
        then show ?thesis using others [of m x] m v Some by simp
      qed
      then show "distinctUntilChanged (v_key (views (subscribe_state (ViewChain n) c) ! m)) x =
         (case buffer (subscribe_state (ViewChain n) c) of None \<Rightarrow> True
          | Some b \<Rightarrow> \<not> strict_eq (pluck (env (subscribe_state (ViewChain n) c))
               (v_path (views (subscribe_state (ViewChain n) c) ! m)) b) x)"
        using v(2) by simp
    qed
  qed
qed

lemma keyed_subscribe:
  assumes "wf c" "keyed c"
  shows "keyed (snd (subscribe h c))"
proof (cases h)
  case FullState
  let ?c0 = "c\<lparr>observers := observers c @ [(h, [])]\<rparr>"
  have "keyed ?c0" using keyed_fields [OF assms(2)] by simp
  moreover have "\<And>n. \<not> live ?c0 \<Longrightarrow> n < length (views ?c0) \<Longrightarrow> \<not> v_live (views ?c0 ! n)"
    using wf_dead_views [OF assms(1)] by simp
  ultimately have "keyed (subscribe_state (Observer (length (observers c))) ?c0)"
    by (rule keyed_subscribe_state_observer)
  then show ?thesis using FullState by (simp add: subscribe_def Let_def)
next
  case (PathView n)
  let ?c0 = "c\<lparr>observers := observers c @ [(h, [])]\<rparr>"
  have k0: "keyed ?c0" using keyed_fields [OF assms(2)] by simp
  show ?thesis
  proof (cases "n < length (views c)")
    case False
    then show ?thesis using PathView k0 by (simp add: subscribe_def Let_def)
  next
    case n: True
    let ?v = "views c ! n"
    show ?thesis
    proof (cases "v_live ?v")
      case True
      let ?c1 = "?c0\<lparr>views := (views ?c0)[n := ?v\<lparr>v_observers := v_observers ?v @ [length (observers c)]\<rparr>],
                          observers := (case v_buffer ?v of
                                          None \<Rightarrow> observers ?c0
                                        | Some x \<Rightarrow> tell (NextValue x) (length (observers c)) (observers ?c0))\<rparr>"
      have r: "snd (subscribe h c) = ?c1"
        using PathView n True by (simp add: subscribe_def Let_def split: option.splits)
      have "keyed ?c1"
      proof (rule keyedI)
        fix m x
        assume m: "m < length (views ?c1)" "v_live (views ?c1 ! m)"
        have m': "m < length (views c)" using m(1) by simp
        have l: "v_live (views c ! m)" using m(2) m' True by (cases "m = n") auto
        have "v_key (views ?c1 ! m) = v_key (views c ! m)" "v_path (views ?c1 ! m) = v_path (views c ! m)"
          using m' by (cases "m = n"; simp)+
        then show "distinctUntilChanged (v_key (views ?c1 ! m)) x =
           (case buffer ?c1 of None \<Rightarrow> True
            | Some b \<Rightarrow> \<not> strict_eq (pluck (env ?c1) (v_path (views ?c1 ! m)) b) x)"
          using keyedD [OF assms(2) m' l, of x] by (simp split: option.splits)
      qed
      then show ?thesis using r by simp
    next
      case False
      let ?c1 = "?c0\<lparr>views := (views ?c0)[n := ?v\<lparr>v_live := True, v_key := None,
                                 v_buffer := None, v_observers := [length (observers c)]\<rparr>]\<rparr>"
      have r: "snd (subscribe h c) = subscribe_state (ViewChain n) ?c1"
        using PathView n False by (simp add: subscribe_def Let_def)
      have "keyed (subscribe_state (ViewChain n) ?c1)"
      proof (rule keyed_subscribe_state_view)
        show "n < length (views ?c1)" using n by simp
        show "v_key (views ?c1 ! n) = None" using n by simp
      next
        fix m x
        assume m: "m < length (views ?c1)" "m \<noteq> n" "v_live (views ?c1 ! m)"
        have m': "m < length (views c)" using m(1) by simp
        have l: "v_live (views c ! m)" using m by simp
        have "live c" using wf_dead_views [OF assms(1) _ m'] l by blast
        then show "live ?c1 \<and> distinctUntilChanged (v_key (views ?c1 ! m)) x =
           (case buffer ?c1 of None \<Rightarrow> True
            | Some b \<Rightarrow> \<not> strict_eq (pluck (env ?c1) (v_path (views ?c1 ! m)) b) x)"
          using keyedD [OF assms(2) m' l, of x] m(2) by (simp split: option.splits)
      qed
      then show ?thesis using r by simp
    qed
  qed
qed

lemma keyed_step: "wf c \<Longrightarrow> keyed c \<Longrightarrow> keyed (step a c)"
  by (cases a) (simp_all add: keyed_setState keyed_getState keyed_subscribe)

lemma keyed_reachable: "keyed (run cs (setupState rt init))"
proof (induction cs rule: rev_induct)
  case Nil
  then show ?case by (simp add: run_def setupState_def keyed_def)
next
  case (snoc a cs)
  then show ?case using keyed_step [OF wf_reachable] by (simp add: run_snoc)
qed


subsection \<open>The replay buffer and the published sequence\<close>

lemma current_snoc [simp]:
  "current (t @ [NextState s]) = Some s" "current (t @ [ErrorEv e]) = None"
  by (simp_all add: current_def)

lemma subscribe_buffer:
  "live (snd (subscribe h c)) \<Longrightarrow>
   buffer (snd (subscribe h c)) = (if live c then buffer c else None)"
  by (auto simp: subscribe_def subscribe_state_def Let_def split: handle.splits option.splits if_splits)

lemma subscribe_dead:
  "\<not> live (snd (subscribe h c)) \<Longrightarrow> \<not> live c"
  by (auto simp: subscribe_def subscribe_state_def Let_def split: handle.splits option.splits if_splits)

lemma buffer_current_step:
  assumes "if live c then buffer c = current (trace c) else current (trace c) = None"
  shows "if live (step a c) then buffer (step a c) = current (trace (step a c))
         else current (trace (step a c)) = None"
proof (cases a)
  case (SetState u)
  show ?thesis
  proof (cases "live c")
    case False
    then show ?thesis using SetState assms by (simp add: setState_def)
  next
    case True
    then show ?thesis using SetState
      by (cases "accumulator (seed c) u") (simp_all add: setState_def)
  qed
next
  case (GetState p)
  then show ?thesis using assms by (simp add: getState_def)
next
  case (Subscribe h)
  show ?thesis
  proof (cases "live (snd (subscribe h c))")
    case True
    then show ?thesis using Subscribe assms subscribe_buffer [OF True]
      by (cases "live c") simp_all
  next
    case False
    then show ?thesis using Subscribe assms subscribe_dead [OF False] by simp
  qed
qed

lemma buffer_current:
  "if live (run cs (setupState rt init))
   then buffer (run cs (setupState rt init)) = current (trace (run cs (setupState rt init)))
   else current (trace (run cs (setupState rt init))) = None"
proof (induction cs rule: rev_induct)
  case Nil
  then show ?case by (simp add: run_def setupState_def current_def)
next
  case (snoc a cs)
  then show ?case using buffer_current_step [of "run cs (setupState rt init)" a]
    by (simp only: run_snoc)
qed

lemma first_subscription_log:
  assumes "n < length (views c)" "\<not> v_live (views c ! n)"
  shows "logs (snd (subscribe (PathView n) c)) (length (observers c)) =
     (case (if live c then buffer c else None) of
        None \<Rightarrow> []
      | Some b \<Rightarrow> (if present (pluck (env c) (v_path (views c ! n)) b)
                    then [NextValue (pluck (env c) (v_path (views c ! n)) b)] else []))"
  using assms
  by (simp add: subscribe_def subscribe_state_def Let_def view_next_def notify_def tell_def
      logs_def nth_append split: option.splits)


section \<open>Claims\<close>

lemmas container_defs =
  run_def logs_def setupState_def getState_def subscribe_def subscribe_state_def
  setState_def accumulator_def applied_def shallow_merge_def publish_def terminate_def
  view_next_def view_error_def notify_def tell_def present_def Let_def
  note_calls_def reducer_calls_def applied_def get_member_def example_runtime_def object_prototype_def

text \<open>
  Claim C1, as stated, fails on the program: \<open>scan\<close> does not emit its seed and the
  replay buffer of \<open>state$\<close> starts empty, so an observer that subscribes to
  \<open>getState()\<close> before any update has been submitted receives nothing, not the initial
  state (the header of the source says so: to see the initial state, call
  \<open>setState(state => state)\<close>).
\<close>

theorem initial_state_not_replayed:
  "fst (getState [] (setupState example_runtime [(''v'', VNum 0)])) = FullState \<and>
   logs (snd (subscribe FullState (setupState example_runtime [(''v'', VNum 0)]))) 0 = [] \<and>
   logs (snd (subscribe FullState (setupState example_runtime [(''v'', VNum 0)]))) 0 \<noteq> [NextState [(''v'', VNum 0)]]"
  by (simp add: container_defs)

text \<open>
  Claim C1, amended: an observer that subscribes to the full sequence (\<open>getState\<close>
  with no argument) is handed at once the most recently published snapshot when there
  is one, and nothing when none has been published: the initial state is not replayed.
  From then on it receives every snapshot that is published, in publication order.
  This holds in every reachable state of the container, as long as no update has raised
  an exception.
\<close>

theorem late_subscriber_replay:
  assumes "c = run cs (setupState rt init)"
    and "getState [] c = (h, c1)"
    and "subscribe h c1 = (i, c2)"
    and "c3 = run cs' c2"
    and "\<not> list_ex failed (trace c3)"
  shows "logs c3 i = latest (trace c) @ drop (length (trace c)) (trace c3)"
proof -
  have h: "h = FullState" "c1 = c" using assms(2) by (simp_all add: getState_def)
  have w: "wf c" unfolding assms(1) by (rule wf_reachable)
  have i: "i = length (observers c)" "c2 = snd (subscribe FullState c)"
    using assms(3) h by (metis subscribe_fst fst_conv, metis snd_conv)
  have w2: "wf c2" unfolding i by (rule wf_subscribe [OF w])
  have s2: "Observer i \<in> set (sinks c2)"
    using subscribe_full_log(2) [of c] wfD(2) [OF w] i by (cases "live c") auto
  have t2: "trace c2 = trace c" by (simp add: i)
  obtain t where "trace c3 = trace c2 @ t" using trace_run assms(4) by blast
  then have "\<not> list_ex failed (trace c)" using assms(5) t2 failed_prefix by metis
  then have "replay c = latest (trace c)" unfolding assms(1) by (rule replay_run)
  then have l2: "logs c2 i = latest (trace c)" using subscribe_full_log(1) [of c] i by simp
  have "logs (run cs' c2) i = logs c2 i @ drop (length (trace c2)) (trace (run cs' c2))"
    using full_observer_run [OF w2 s2, of cs'] assms(4,5) by simp
  then show ?thesis using l2 t2 assms(4) by simp
qed

theorem late_subscriber_replay_witness:
  "\<not> list_ex failed
       (trace (run [SetState (UPartial [(''v'', VNum 2)])]
                 (snd (subscribe FullState
                    (run [Subscribe FullState, SetState (UPartial [(''v'', VNum 1)])]
                       (setupState example_runtime [(''v'', VNum 0)])))))) \<and>
   logs (run [SetState (UPartial [(''v'', VNum 2)])]
           (snd (subscribe FullState
              (run [Subscribe FullState, SetState (UPartial [(''v'', VNum 1)])]
                 (setupState example_runtime [(''v'', VNum 0)]))))) 1 =
     [NextState [(''v'', VNum 1)], NextState [(''v'', VNum 2)]]"
proof -
  define c where "c = run [Subscribe FullState, SetState (UPartial [(''v'', VNum 1)])]
                        (setupState example_runtime [(''v'', VNum 0)])"
  define c3 where "c3 = run [SetState (UPartial [(''v'', VNum 2)])] (snd (subscribe FullState c))"
  have t: "trace c = [NextState [(''v'', VNum 1)]]"
    by (simp add: c_def container_defs)
  have t3: "trace c3 = [NextState [(''v'', VNum 1)], NextState [(''v'', VNum 2)]]"
    by (simp add: c3_def c_def container_defs)
  have g: "getState [] c = (FullState, c)" by (simp add: getState_def)
  have s: "subscribe FullState c = (1, snd (subscribe FullState c))"
    by (simp add: c_def container_defs)
  have nf: "\<not> list_ex failed (trace c3)" by (simp add: t3)
  have "logs c3 1 = latest (trace c) @ drop (length (trace c)) (trace c3)"
    using late_subscriber_replay [OF c_def g s c3_def nf] .
  then have "logs c3 1 = [NextState [(''v'', VNum 1)], NextState [(''v'', VNum 2)]]"
    by (simp add: t t3 latest_def)
  with nf show ?thesis unfolding c3_def c_def by blast
qed

text \<open>
  Claim C2, as stated, fails on the program: \<open>state$\<close> subscribes to the subject only
  when its first observer arrives, and the subject keeps nothing, so an update submitted
  before that is dropped. It yields no snapshot, and the first snapshot published later
  is the merge of the initial state with the second update, not the fold of both.
\<close>

theorem update_before_subscription_dropped:
  "trace (run [SetState (UPartial [(''v'', VNum 5)])] (setupState example_runtime [(''v'', VNum 0)])) = [] \<and>
   trace (run [SetState (UPartial [(''v'', VNum 5)]), Subscribe FullState,
               SetState (UPartial [(''w'', VNum 1)])] (setupState example_runtime [(''v'', VNum 0)])) =
     [NextState [(''v'', VNum 0), (''w'', VNum 1)]] \<and>
   left_fold [(''v'', VNum 0)] [UPartial [(''v'', VNum 5)], UPartial [(''w'', VNum 1)]] =
     [(''v'', VNum 5), (''w'', VNum 1)]"
  by (simp add: container_defs left_fold_def)

text \<open>
  Claim C2, amended: take the container once \<open>state$\<close> is subscribed and before it has
  published anything, and let any sequence of calls follow: calls of \<open>setState\<close>, in any
  number, with calls of \<open>getState\<close> and subscriptions to the full sequence and to views
  between them in any way. Let the updates that these calls submit, in order, each be a
  function that returns or a partial that \<open>isFunction\<close> does not take for a function.
  Then every call of \<open>setState\<close> publishes exactly one snapshot (a no-op included); the
  N-th published snapshot is the left fold of the shallow merge over the first N updates
  starting from the initial state; every update that is a function has been invoked
  within its call of \<open>setState\<close>, exactly once, on the snapshot that results from all the
  updates submitted before it, and nothing else has been invoked; and every observer
  that the full sequence had at the start has received these snapshots in order. Since
  the sequence of calls is arbitrary, this holds after each of its calls.
\<close>

theorem fold_correctness:
  assumes "c = run cs (setupState rt init)" and "live c" and "trace c = []"
    and "c' = run cs' c" and "accepted init (updates_of cs')"
  shows "length (trace c') = length (updates_of cs') \<and>
         (\<forall>n<length (updates_of cs').
            trace c' ! n = NextState (left_fold init (take (Suc n) (updates_of cs')))) \<and>
         invoked c' = invoked c @ invocations init (updates_of cs') \<and>
         (\<forall>i. Observer i \<in> set (sinks c) \<longrightarrow> logs c' i = logs c i @ trace c')"
proof -
  have s: "seed c = init" using seed_initial_run [of cs rt init] assms(1-3) by simp
  have r: "trace c' = map NextState (snapshots init (updates_of cs'))"
    "invoked c' = invoked c @ invocations init (updates_of cs')"
    using run_calls [of c cs'] assms(2-5) s by simp_all
  have w: "wf c" unfolding assms(1) by (rule wf_reachable)
  have "logs c' i = logs c i @ trace c'" if "Observer i \<in> set (sinks c)" for i
    using full_observer_run [OF w that, of cs'] assms(3,4) r(1) by simp
  then show ?thesis using r by (simp add: snapshots_nth)
qed

theorem fold_correctness_witness:
  "live (run [SetState (UPartial [(''v'', VNum 5)]), Subscribe FullState]
           (setupState example_runtime [(''v'', VNum 0)])) \<and>
   trace (run [SetState (UPartial [(''v'', VNum 5)]), Subscribe FullState]
            (setupState example_runtime [(''v'', VNum 0)])) = [] \<and>
   accepted [(''v'', VNum 0)]
     (updates_of [SetState counter_update, GetState [''v''], Subscribe (PathView 0),
                  SetState (UPartial [(''w'', VNum 7)]), Subscribe FullState,
                  SetState counter_update]) \<and>
   length (trace (run [SetState counter_update, GetState [''v''], Subscribe (PathView 0),
                       SetState (UPartial [(''w'', VNum 7)]), Subscribe FullState,
                       SetState counter_update]
                    (run [SetState (UPartial [(''v'', VNum 5)]), Subscribe FullState]
                       (setupState example_runtime [(''v'', VNum 0)])))) = 3 \<and>
   trace (run [SetState counter_update, GetState [''v''], Subscribe (PathView 0),
               SetState (UPartial [(''w'', VNum 7)]), Subscribe FullState,
               SetState counter_update]
            (run [SetState (UPartial [(''v'', VNum 5)]), Subscribe FullState]
               (setupState example_runtime [(''v'', VNum 0)]))) ! 2 =
     NextState [(''v'', VNum 2), (''w'', VNum 7)] \<and>
   invoked (run [SetState counter_update, GetState [''v''], Subscribe (PathView 0),
                 SetState (UPartial [(''w'', VNum 7)]), Subscribe FullState,
                 SetState counter_update]
              (run [SetState (UPartial [(''v'', VNum 5)]), Subscribe FullState]
                 (setupState example_runtime [(''v'', VNum 0)]))) =
     [[(''v'', VNum 0)], [(''v'', VNum 1), (''w'', VNum 7)]] \<and>
   logs (run [SetState counter_update, GetState [''v''], Subscribe (PathView 0),
              SetState (UPartial [(''w'', VNum 7)]), Subscribe FullState,
              SetState counter_update]
           (run [SetState (UPartial [(''v'', VNum 5)]), Subscribe FullState]
              (setupState example_runtime [(''v'', VNum 0)]))) 0 =
     trace (run [SetState counter_update, GetState [''v''], Subscribe (PathView 0),
                 SetState (UPartial [(''w'', VNum 7)]), Subscribe FullState,
                 SetState counter_update]
              (run [SetState (UPartial [(''v'', VNum 5)]), Subscribe FullState]
                 (setupState example_runtime [(''v'', VNum 0)])))"
proof -
  define c where "c = run [SetState (UPartial [(''v'', VNum 5)]), Subscribe FullState]
                        (setupState example_runtime [(''v'', VNum 0)])"
  define cs' where "cs' = [SetState counter_update, GetState [''v''], Subscribe (PathView 0),
                           SetState (UPartial [(''w'', VNum 7)]), Subscribe FullState,
                           SetState counter_update]"
  define c' where "c' = run cs' c"
  have l: "live c" and t: "trace c = []" and s: "Observer 0 \<in> set (sinks c)"
    and g: "logs c 0 = []" and i: "invoked c = []"
    by (simp_all add: c_def container_defs)
  have u: "updates_of cs' = [counter_update, UPartial [(''w'', VNum 7)], counter_update]"
    by (simp add: cs'_def)
  have a: "accepted [(''v'', VNum 0)] (updates_of cs')"
    by (simp add: u counter_update_def shallow_merge_def)
  have f: "left_fold [(''v'', VNum 0)] (take (Suc 2) (updates_of cs')) =
      [(''v'', VNum 2), (''w'', VNum 7)]"
    by (simp add: u counter_update_def left_fold_def shallow_merge_def)
  have v: "invocations [(''v'', VNum 0)] (updates_of cs') =
      [[(''v'', VNum 0)], [(''v'', VNum 1), (''w'', VNum 7)]]"
    by (simp add: u counter_update_def shallow_merge_def)
  note r = fold_correctness [OF c_def l t c'_def a]
  have "length (trace c') = 3" using r by (simp add: u)
  moreover have "trace c' ! 2 = NextState [(''v'', VNum 2), (''w'', VNum 7)]"
    using r f by (simp add: u)
  moreover have "invoked c' = [[(''v'', VNum 0)], [(''v'', VNum 1), (''w'', VNum 7)]]"
    using r v i by simp
  moreover have "logs c' 0 = trace c'" using r s g by simp
  ultimately show ?thesis using l t a unfolding c'_def cs'_def c_def by blast
qed

text \<open>
  Claim C3 is what the header of the source promises (calls of \<open>getState\<close> are
  memoized), but the program keeps no cache of views: every call of \<open>getState\<close> with a
  non-empty path builds a new chain with a replay buffer of its own. After \<open>a\<close> has
  taken the values 1 and then \<open>null\<close>, a second call \<open>getState('a')\<close> returns another
  view; its observer is handed nothing, while a new observer of the first view is handed
  the value 1.
\<close>

theorem getState_not_memoized:
  "fst (getState [''a'']
         (run [GetState [''a''], Subscribe (PathView 0),
               SetState (UPartial [(''a'', VNum 1)]), SetState (UPartial [(''a'', VNull)])]
            (setupState example_runtime [(''a'', VNum 0)]))) = PathView 1 \<and>
   logs (run [GetState [''a''], Subscribe (PathView 0),
              SetState (UPartial [(''a'', VNum 1)]), SetState (UPartial [(''a'', VNull)]),
              GetState [''a''], Subscribe (PathView 1), Subscribe (PathView 0)]
           (setupState example_runtime [(''a'', VNum 0)])) 1 = [] \<and>
   logs (run [GetState [''a''], Subscribe (PathView 0),
              SetState (UPartial [(''a'', VNum 1)]), SetState (UPartial [(''a'', VNull)]),
              GetState [''a''], Subscribe (PathView 1), Subscribe (PathView 0)]
           (setupState example_runtime [(''a'', VNum 0)])) 2 = [NextValue (VNum 1)]"
  by (simp add: container_defs)

text \<open>
  Claim C4, as stated, fails on the program: \<open>distinctUntilChanged()\<close> stands before
  the filter in the chain, so it compares a candidate with the candidate before it, also
  when the filter removed that one. When \<open>a\<close> takes the values 1, \<open>null\<close>, 1, the third
  candidate equals the last value the observers received and is delivered all the same.
\<close>

theorem distinct_ignores_filter:
  "strict_eq (VNum 1) (VNum 1) \<and>
   logs (run [GetState [''a''], Subscribe (PathView 0),
              SetState (UPartial [(''a'', VNum 1)]), SetState (UPartial [(''a'', VNull)]),
              SetState (UPartial [(''a'', VNum 1)])]
           (setupState example_runtime [(''a'', VNum 0)])) 0 = [NextValue (VNum 1), NextValue (VNum 1)]"
  by (simp add: container_defs)

text \<open>
  Claim C4, amended, on what the observers of a view receive, in every reachable
  container. When a call of \<open>setState\<close> publishes a snapshot, the candidate extracted
  from it at the view's path is withheld from the observers of the view by the
  distinct-change stage exactly when it is \<open>===\<close> to the candidate extracted from the
  snapshot that was published just before, whether or not that candidate was itself
  delivered (a \<open>null\<close> or \<open>undefined\<close> predecessor counts); a candidate that has no such
  predecessor passes the stage. A candidate that passes is delivered unless it is
  \<open>null\<close> or \<open>undefined\<close>. Likewise the first candidate of a view, which it extracts
  from the replayed snapshot when its first observer subscribes, is compared with nothing.
\<close>

theorem distinct_compares_previous_candidate:
  assumes "c = run cs (setupState rt init)"
    and "n < length (views c)"
    and "p = v_path (views c ! n)"
  shows "(j \<in> set (v_observers (views c ! n)) \<longrightarrow> accumulator (seed c) u = Inr s \<longrightarrow>
            logs (setState u c) j =
              logs c j @
                (if (case current (trace c) of
                       None \<Rightarrow> False
                     | Some b \<Rightarrow> strict_eq (pluck rt p b) (pluck rt p s)) then []
                 else if pluck rt p s = VNull \<or> pluck rt p s = VUndefined then []
                 else [NextValue (pluck rt p s)])) \<and>
         (\<not> v_live (views c ! n) \<longrightarrow>
            logs (snd (subscribe (PathView n) c)) (length (observers c)) =
              (case current (trace c) of
                 None \<Rightarrow> []
               | Some b \<Rightarrow> (if pluck rt p b = VNull \<or> pluck rt p b = VUndefined then []
                             else [NextValue (pluck rt p b)])))"
proof -
  have w: "wf c" unfolding assms(1) by (rule wf_reachable)
  have k: "keyed c" unfolding assms(1) by (rule keyed_reachable)
  have e: "env c = rt" unfolding assms(1) by (simp add: setupState_def)
  have b: "if live c then buffer c = current (trace c) else current (trace c) = None"
    unfolding assms(1) by (rule buffer_current)
  have 1: "logs (setState u c) j =
              logs c j @
                (if (case current (trace c) of
                       None \<Rightarrow> False
                     | Some b \<Rightarrow> strict_eq (pluck rt p b) (pluck rt p s)) then []
                 else if pluck rt p s = VNull \<or> pluck rt p s = VUndefined then []
                 else [NextValue (pluck rt p s)])"
    if j: "j \<in> set (v_observers (views c ! n))" and a: "accumulator (seed c) u = Inr s"
  proof -
    note f = wf_view_observer_facts [OF w assms(2) j]
    have l: "v_live (views c ! n)" using f(1) wfD(6) [OF w] by blast
    let ?c = "(note_calls u c)\<lparr>seed := s\<rparr>"
    have "same_shape c ?c" by (simp add: same_shape_def)
    then have ws: "wf ?c" using w wf_same_shape by blast
    have "logs (publish s ?c) j =
             logs ?c j @
               (if distinctUntilChanged (v_key (views ?c ! n)) (pluck (env ?c) (v_path (views ?c ! n)) s) \<and>
                   present (pluck (env ?c) (v_path (views ?c ! n)) s)
                then [NextValue (pluck (env ?c) (v_path (views ?c ! n)) s)] else [])"
      by (rule publish_view_log [OF ws]) (use assms(2) j in simp_all)
    moreover have "distinctUntilChanged (v_key (views c ! n)) (pluck rt p s) =
        (case current (trace c) of
           None \<Rightarrow> True
         | Some b \<Rightarrow> \<not> strict_eq (pluck rt p b) (pluck rt p s))"
      using keyedD [OF k assms(2) l, of "pluck rt p s"] b f(2) e assms(3)
      by (simp split: option.splits)
    ultimately show ?thesis
      using f(2) a e assms(3)
      by (simp add: setState_def logs_def present_def note_calls_def split: option.splits)
  qed
  have 2: "logs (snd (subscribe (PathView n) c)) (length (observers c)) =
              (case current (trace c) of
                 None \<Rightarrow> []
               | Some b \<Rightarrow> (if pluck rt p b = VNull \<or> pluck rt p b = VUndefined then []
                             else [NextValue (pluck rt p b)]))"
    if d: "\<not> v_live (views c ! n)"
  proof -
    have "(if live c then buffer c else None) = current (trace c)"
      using b by (cases "live c") simp_all
    then show ?thesis
      using first_subscription_log [OF assms(2) d] e assms(3)
      by (simp add: present_def split: option.splits)
  qed
  show ?thesis using 1 2 by blast
qed

theorem distinct_compares_previous_candidate_witness:
  "0 \<in> set (v_observers (views (run [GetState [''a''], Subscribe (PathView 0),
          SetState (UPartial [(''a'', VNum 1)]), SetState (UPartial [(''a'', VNull)])]
        (setupState example_runtime [(''a'', VNum 0)])) ! 0)) \<and>
   current (trace (run [GetState [''a''], Subscribe (PathView 0),
          SetState (UPartial [(''a'', VNum 1)]), SetState (UPartial [(''a'', VNull)])]
        (setupState example_runtime [(''a'', VNum 0)]))) = Some [(''a'', VNull)] \<and>
   logs (setState (UPartial [(''a'', VNum 1)])
          (run [GetState [''a''], Subscribe (PathView 0),
                SetState (UPartial [(''a'', VNum 1)]), SetState (UPartial [(''a'', VNull)])]
             (setupState example_runtime [(''a'', VNum 0)]))) 0 =
     [NextValue (VNum 1), NextValue (VNum 1)] \<and>
   logs (setState (UPartial [(''b'', VNum 2)])
          (run [GetState [''a''], Subscribe (PathView 0), SetState (UPartial [(''a'', VNum 1)])]
             (setupState example_runtime [(''a'', VNum 0)]))) 0 =
     [NextValue (VNum 1)] \<and>
   \<not> v_live (views (run [Subscribe FullState, SetState (UPartial [(''a'', VNum 1)]), GetState [''a'']]
        (setupState example_runtime [(''a'', VNum 0)])) ! 0) \<and>
   logs (snd (subscribe (PathView 0)
          (run [Subscribe FullState, SetState (UPartial [(''a'', VNum 1)]), GetState [''a'']]
             (setupState example_runtime [(''a'', VNum 0)])))) 1 =
     [NextValue (VNum 1)]"
proof -
  define c where "c = run [GetState [''a''], Subscribe (PathView 0),
          SetState (UPartial [(''a'', VNum 1)]), SetState (UPartial [(''a'', VNull)])]
        (setupState example_runtime [(''a'', VNum 0)])"
  define d where "d = run [GetState [''a''], Subscribe (PathView 0), SetState (UPartial [(''a'', VNum 1)])]
             (setupState example_runtime [(''a'', VNum 0)])"
  define e where "e = run [Subscribe FullState, SetState (UPartial [(''a'', VNum 1)]), GetState [''a'']]
             (setupState example_runtime [(''a'', VNum 0)])"
  have c: "0 < length (views c)" "[''a''] = v_path (views c ! 0)"
    "0 \<in> set (v_observers (views c ! 0))"
    "accumulator (seed c) (UPartial [(''a'', VNum 1)]) = Inr [(''a'', VNum 1)]"
    "current (trace c) = Some [(''a'', VNull)]" "logs c 0 = [NextValue (VNum 1)]"
    by (simp_all add: c_def container_defs current_def)
  have d: "0 < length (views d)" "[''a''] = v_path (views d ! 0)"
    "0 \<in> set (v_observers (views d ! 0))"
    "accumulator (seed d) (UPartial [(''b'', VNum 2)]) = Inr [(''a'', VNum 1), (''b'', VNum 2)]"
    "current (trace d) = Some [(''a'', VNum 1)]" "logs d 0 = [NextValue (VNum 1)]"
    by (simp_all add: d_def container_defs current_def)
  have e: "0 < length (views e)" "[''a''] = v_path (views e ! 0)"
    "\<not> v_live (views e ! 0)" "current (trace e) = Some [(''a'', VNum 1)]"
    "length (observers e) = 1"
    by (simp_all add: e_def container_defs current_def)
  have "logs (setState (UPartial [(''a'', VNum 1)]) c) 0 = [NextValue (VNum 1), NextValue (VNum 1)]"
    using distinct_compares_previous_candidate [OF c_def c(1,2), of 0 "UPartial [(''a'', VNum 1)]" "[(''a'', VNum 1)]"]
      c(3-6) by (simp add: get_member_def)
  moreover have "logs (setState (UPartial [(''b'', VNum 2)]) d) 0 = [NextValue (VNum 1)]"
    using distinct_compares_previous_candidate [OF d_def d(1,2), of 0 "UPartial [(''b'', VNum 2)]" "[(''a'', VNum 1), (''b'', VNum 2)]"]
      d(3-6) by (simp add: get_member_def)
  moreover have "logs (snd (subscribe (PathView 0) e)) 1 = [NextValue (VNum 1)]"
    using distinct_compares_previous_candidate [OF e_def e(1,2)] e(3-5) by (simp add: get_member_def)
  ultimately show ?thesis using c(3,5) e(3) unfolding c_def d_def e_def by blast
qed

text \<open>
  Claim C5, as stated, fails on the program: an exception of an update function is
  caught by \<open>scan\<close> and sent to the observers as an error notification, which ends
  \<open>state$\<close>. The container does not keep operating for its observers: the snapshot of
  the \<open>setState\<close> call that follows is neither published nor delivered.
\<close>

theorem container_dead_after_throw:
  "logs (run [Subscribe FullState, SetState (UPartial [(''v'', VNum 1)]),
              SetState (UFunction (\<lambda>s. Inl (Thrown ''boom''))),
              SetState (UPartial [(''v'', VNum 2)])]
           (setupState example_runtime [(''v'', VNum 0)])) 0 =
     [NextState [(''v'', VNum 1)], ErrorEv (Thrown ''boom'')] \<and>
   trace (run [Subscribe FullState, SetState (UPartial [(''v'', VNum 1)]),
               SetState (UFunction (\<lambda>s. Inl (Thrown ''boom''))),
               SetState (UPartial [(''v'', VNum 2)])]
            (setupState example_runtime [(''v'', VNum 0)])) =
     [NextState [(''v'', VNum 1)], ErrorEv (Thrown ''boom'')]"
  by (simp add: container_defs)

text \<open>
  Claim C5, amended: if a function update throws when it is invoked (on a container
  whose \<open>state$\<close> is subscribed), no new snapshot is published; the error is
  delivered, as their last notification, to every observer of the full sequence and of
  the live views, and \<open>state$\<close> ends: the calls of \<open>setState\<close> that follow change
  nothing, publish nothing and reach no observer. An observer that subscribes to the
  full sequence afterwards is handed no snapshot, and the sequence starts again from
  the initial state.
\<close>

theorem throwing_update_terminates:
  assumes "c = run cs (setupState rt init)" and "live c" and "f (seed c) = Inl e"
    and "c' = setState (UFunction f) c"
  shows "trace c' = trace c @ [ErrorEv e] \<and>
         (\<forall>i. Observer i \<in> set (sinks c) \<longrightarrow> logs c' i = logs c i @ [ErrorEv e]) \<and>
         (\<forall>n<length (views c). \<forall>i \<in> set (v_observers (views c ! n)).
             logs c' i = logs c i @ [ErrorEv e]) \<and>
         (\<forall>us. run (map SetState us) c' = c') \<and>
         logs (snd (subscribe FullState c')) (fst (subscribe FullState c')) = [] \<and>
         seed (snd (subscribe FullState c')) = init"
proof -
  have w: "wf c" unfolding assms(1) by (rule wf_reachable)
  let ?c = "note_calls (UFunction f) c"
  have w0: "wf ?c" by (rule wf_note_calls [OF w])
  have c': "c' = terminate e ?c"
    using assms(2-4) by (simp add: setState_def accumulator_def applied_def)
  have d: "\<not> live c'" by (simp add: c')
  then have "run (map SetState us) c' = c'" for us by (rule run_updates_dead)
  moreover have "logs (snd (subscribe FullState c')) (fst (subscribe FullState c')) = []"
    using subscribe_full_log(1) [of c'] d by (simp add: replay_def)
  moreover have "initialState c' = init"
    using seed_initial_run [of cs rt init] assms(1) by (simp add: c')
  then have "seed (snd (subscribe FullState c')) = init"
    using d by (simp add: subscribe_def Let_def)
  moreover have "logs ?c i = logs c i" for i by (simp add: logs_def note_calls_def)
  ultimately show ?thesis using terminate_logs [OF w0, where e = e] by (simp add: c')
qed

theorem throwing_update_terminates_witness:
  "live (run [Subscribe FullState, GetState [''v''], Subscribe (PathView 0),
              SetState (UPartial [(''v'', VNum 1)])] (setupState example_runtime [(''v'', VNum 0)])) \<and>
   logs (setState (UFunction (\<lambda>s. Inl (Thrown ''boom'')))
           (run [Subscribe FullState, GetState [''v''], Subscribe (PathView 0),
                 SetState (UPartial [(''v'', VNum 1)])] (setupState example_runtime [(''v'', VNum 0)]))) 0 =
     [NextState [(''v'', VNum 1)], ErrorEv (Thrown ''boom'')] \<and>
   logs (setState (UFunction (\<lambda>s. Inl (Thrown ''boom'')))
           (run [Subscribe FullState, GetState [''v''], Subscribe (PathView 0),
                 SetState (UPartial [(''v'', VNum 1)])] (setupState example_runtime [(''v'', VNum 0)]))) 1 =
     [NextValue (VNum 1), ErrorEv (Thrown ''boom'')] \<and>
   trace (run (map SetState [UPartial [(''v'', VNum 2)]])
           (setState (UFunction (\<lambda>s. Inl (Thrown ''boom'')))
              (run [Subscribe FullState, GetState [''v''], Subscribe (PathView 0),
                 SetState (UPartial [(''v'', VNum 1)])] (setupState example_runtime [(''v'', VNum 0)])))) =
     [NextState [(''v'', VNum 1)], ErrorEv (Thrown ''boom'')]"
proof -
  define c where "c = run [Subscribe FullState, GetState [''v''], Subscribe (PathView 0),
                 SetState (UPartial [(''v'', VNum 1)])] (setupState example_runtime [(''v'', VNum 0)])"
  define f :: "obj \<Rightarrow> js_error + obj" where "f = (\<lambda>s. Inl (Thrown ''boom''))"
  define c' where "c' = setState (UFunction f) c"
  have l: "live c" and t: "trace c = [NextState [(''v'', VNum 1)]]"
    and s: "Observer 0 \<in> set (sinks c)" and v: "0 < length (views c)"
    and o: "1 \<in> set (v_observers (views c ! 0))"
    and g: "logs c 0 = [NextState [(''v'', VNum 1)]]" "logs c 1 = [NextValue (VNum 1)]"
    by (simp_all add: c_def container_defs)
  have e: "f (seed c) = Inl (Thrown ''boom'')" by (simp add: f_def)
  note r = throwing_update_terminates [OF c_def l e c'_def]
  have "logs c' 0 = [NextState [(''v'', VNum 1)], ErrorEv (Thrown ''boom'')]"
    using r s g by simp
  moreover have "logs c' 1 = [NextValue (VNum 1), ErrorEv (Thrown ''boom'')]"
    using r v o g by fastforce
  moreover have "trace (run (map SetState [UPartial [(''v'', VNum 2)]]) c') =
      [NextState [(''v'', VNum 1)], ErrorEv (Thrown ''boom'')]"
  proof -
    have q: "run (map SetState [UPartial [(''v'', VNum 2)]]) c' = c'" using r by blast
    have "trace c' = [NextState [(''v'', VNum 1)], ErrorEv (Thrown ''boom'')]"
      using r t by simp
    then show ?thesis by (subst q)
  qed
  ultimately show ?thesis using l unfolding c'_def f_def c_def by blast
qed

text \<open>
  Claim C6: the reducer merges shallowly. With the state \<open>{a: {x: 1}, b: 2}\<close>, the
  partial update \<open>{a: {y: 2}}\<close> gives \<open>{a: {y: 2}, b: 2}\<close>: the nested object under
  \<open>a\<close> is replaced as a whole, so \<open>x\<close> is lost, and \<open>b\<close> is kept; an observer of the
  full sequence receives exactly that snapshot. In general every top-level property of
  the partial replaces the property of the state with that name, and every other
  property of the state is kept (objects have one property per name).
\<close>

theorem shallow_merge_semantics:
  "accumulator [(''a'', VObj 1 [(''x'', VNum 1)]), (''b'', VNum 2)]
       (UPartial [(''a'', VObj 2 [(''y'', VNum 2)])]) =
     Inr [(''a'', VObj 2 [(''y'', VNum 2)]), (''b'', VNum 2)] \<and>
   logs (run [Subscribe FullState, SetState (UPartial [(''a'', VObj 2 [(''y'', VNum 2)])])]
           (setupState example_runtime [(''a'', VObj 1 [(''x'', VNum 1)]), (''b'', VNum 2)])) 0 =
     [NextState [(''a'', VObj 2 [(''y'', VNum 2)]), (''b'', VNum 2)]] \<and>
   (distinct (map fst s) \<and> distinct (map fst p) \<longrightarrow>
      get_field (shallow_merge s p) k =
        (if k \<in> fst ` set p then get_field p k else get_field s k))"
proof -
  have "accumulator [(''a'', VObj 1 [(''x'', VNum 1)]), (''b'', VNum 2)]
       (UPartial [(''a'', VObj 2 [(''y'', VNum 2)])]) =
     Inr [(''a'', VObj 2 [(''y'', VNum 2)]), (''b'', VNum 2)]"
    by (simp add: accumulator_def applied_def shallow_merge_def)
  moreover have "logs (run [Subscribe FullState, SetState (UPartial [(''a'', VObj 2 [(''y'', VNum 2)])])]
           (setupState example_runtime [(''a'', VObj 1 [(''x'', VNum 1)]), (''b'', VNum 2)])) 0 =
     [NextState [(''a'', VObj 2 [(''y'', VNum 2)]), (''b'', VNum 2)]]"
    by (simp add: container_defs)
  ultimately show ?thesis using get_field_shallow_merge [of s p k] by blast
qed

theorem shallow_merge_semantics_witness:
  "distinct (map fst [(''a'', VObj 1 [(''x'', VNum 1)]), (''b'', VNum 2)]) \<and>
   distinct (map fst [(''a'', VObj 2 [(''y'', VNum 2)])]) \<and>
   get_field (shallow_merge [(''a'', VObj 1 [(''x'', VNum 1)]), (''b'', VNum 2)]
                [(''a'', VObj 2 [(''y'', VNum 2)])]) ''a'' = VObj 2 [(''y'', VNum 2)] \<and>
   get_field (shallow_merge [(''a'', VObj 1 [(''x'', VNum 1)]), (''b'', VNum 2)]
                [(''a'', VObj 2 [(''y'', VNum 2)])]) ''b'' = VNum 2"
  using shallow_merge_semantics [of "[(''a'', VObj 1 [(''x'', VNum 1)]), (''b'', VNum 2)]"
      "[(''a'', VObj 2 [(''y'', VNum 2)])]" "''a''"]
    shallow_merge_semantics [of "[(''a'', VObj 1 [(''x'', VNum 1)]), (''b'', VNum 2)]"
      "[(''a'', VObj 2 [(''y'', VNum 2)])]" "''b''"]
  by simp

text \<open>
  Claim C7: \<open>getState\<close> with an empty path returns \<open>state$\<close> itself and builds no
  chain. An observer subscribed to it receives every snapshot that \<open>state$\<close> publishes
  afterwards, one notification for each, whatever the snapshot is: nothing is compared
  with the snapshot before and nothing filtered, so a snapshot equal to the last one is
  delivered again.
\<close>

theorem empty_path_passthrough:
  assumes "c = run cs (setupState rt init)"
    and "getState [] c = (h, c1)"
    and "subscribe h c1 = (i, c2)"
    and "c3 = run cs' c2"
    and "\<not> list_ex failed (trace c3)"
    and "accumulator (seed c3) u = Inr s"
  shows "h = FullState \<and> c1 = c \<and>
         trace (setState u c3) = trace c3 @ [NextState s] \<and>
         logs (setState u c3) i = logs c3 i @ [NextState s]"
proof -
  have h: "h = FullState" "c1 = c" using assms(2) by (simp_all add: getState_def)
  have w: "wf c" unfolding assms(1) by (rule wf_reachable)
  have i: "i = length (observers c)" "c2 = snd (subscribe FullState c)"
    using assms(3) h by (metis subscribe_fst fst_conv, metis snd_conv)
  have w2: "wf c2" unfolding i by (rule wf_subscribe [OF w])
  have s2: "Observer i \<in> set (sinks c2)"
    using subscribe_full_log(2) [of c] wfD(2) [OF w] i by (cases "live c") auto
  have s3: "Observer i \<in> set (sinks c3)"
    using full_observer_run [OF w2 s2, of cs'] assms(4,5) by simp
  have w3: "wf c3" unfolding assms(4) by (rule wf_run [OF w2])
  have l3: "live c3" using wfD(2) [OF w3] s3 by (cases "live c3") auto
  have "same_shape c3 ((note_calls u c3)\<lparr>seed := s\<rparr>)" by (simp add: same_shape_def)
  then have ws: "wf ((note_calls u c3)\<lparr>seed := s\<rparr>)" using w3 wf_same_shape by blast
  have "logs (publish s ((note_calls u c3)\<lparr>seed := s\<rparr>)) i = logs ((note_calls u c3)\<lparr>seed := s\<rparr>) i @ [NextState s]"
    by (rule publish_full_log [OF ws]) (use s3 in simp)
  then show ?thesis using h l3 assms(6) by (simp add: setState_def logs_def note_calls_def)
qed

theorem empty_path_passthrough_witness:
  "\<not> list_ex failed (trace (run [SetState (UPartial [(''v'', VNum 1)])]
        (snd (subscribe FullState (setupState example_runtime [(''v'', VNum 0)]))))) \<and>
   fst (getState [] (setupState example_runtime [(''v'', VNum 0)])) = FullState \<and>
   logs (setState (UPartial [(''v'', VNum 1)])
           (run [SetState (UPartial [(''v'', VNum 1)])]
              (snd (subscribe FullState (setupState example_runtime [(''v'', VNum 0)]))))) 0 =
     [NextState [(''v'', VNum 1)], NextState [(''v'', VNum 1)]]"
proof -
  define c where "c = run [] (setupState example_runtime [(''v'', VNum 0)])"
  define c2 where "c2 = snd (subscribe FullState c)"
  define c3 where "c3 = run [SetState (UPartial [(''v'', VNum 1)])] c2"
  have g: "getState [] c = (FullState, c)" by (simp add: getState_def)
  have s: "subscribe FullState c = (0, c2)" by (simp add: c2_def c_def container_defs)
  have t3: "trace c3 = [NextState [(''v'', VNum 1)]]"
    and l3: "logs c3 0 = [NextState [(''v'', VNum 1)]]"
    and a: "accumulator (seed c3) (UPartial [(''v'', VNum 1)]) = Inr [(''v'', VNum 1)]"
    by (simp_all add: c3_def c2_def c_def container_defs)
  have nf: "\<not> list_ex failed (trace c3)" by (simp add: t3)
  have "logs (setState (UPartial [(''v'', VNum 1)]) c3) 0 = logs c3 0 @ [NextState [(''v'', VNum 1)]]"
    using empty_path_passthrough [OF c_def g s c3_def nf a] by blast
  then have "logs (setState (UPartial [(''v'', VNum 1)]) c3) 0 =
      [NextState [(''v'', VNum 1)], NextState [(''v'', VNum 1)]]" by (simp add: l3)
  moreover have "c = setupState example_runtime [(''v'', VNum 0)]" by (simp add: c_def run_def)
  ultimately show ?thesis using nf g unfolding c3_def c2_def by simp
qed

text \<open>
  Claim C8, as stated, fails on the program, in both of its parts. The chain reads a
  path as \<open>pluck\<close> does, by property access, and a property access also finds what an
  object inherits: the state has no property \<open>toString\<close> of its own, and no update gives
  it one, yet the view \<open>getState('toString')\<close> emits the inherited function. And a view
  passes on the errors of \<open>state$\<close>: the observer of a view on the missing path
  \<open>['missing', 'path']\<close> receives an error as soon as an update function throws.
\<close>

theorem missing_path_emits_or_fails:
  "''toString'' \<notin> fst ` set [(''a'', VNum 0)] \<and>
   trace (run [GetState [''toString''], Subscribe (PathView 0),
               SetState (UPartial [(''a'', VNum 1)])]
            (setupState example_runtime [(''a'', VNum 0)])) = [NextState [(''a'', VNum 1)]] \<and>
   logs (run [GetState [''toString''], Subscribe (PathView 0),
              SetState (UPartial [(''a'', VNum 1)])]
           (setupState example_runtime [(''a'', VNum 0)])) 0 = [NextValue (VFunction 1)] \<and>
   logs (run [GetState [''missing'', ''path''], Subscribe (PathView 0),
              SetState (UFunction (\<lambda>s. Inl (Thrown ''boom'')))]
           (setupState example_runtime [(''a'', VNum 0)])) 0 = [ErrorEv (Thrown ''boom'')]"
  by (simp add: container_defs)

text \<open>
  Claim C8, amended: an observer of a path view never receives \<open>null\<close> or
  \<open>undefined\<close>. It receives values only (no snapshot), each the extraction at the
  view's path of a snapshot that was published, where a segment is read by property
  access, so that inherited properties are found as well as own ones. The only error it
  can receive is one that \<open>state$\<close> raised because an update threw: extracting a path
  raises none, so an observer receives no error as long as no update has thrown. When
  the path resolves in no published snapshot to a value other than \<open>null\<close> and
  \<open>undefined\<close>, the observer receives no value at all, whatever the updates were.
\<close>

theorem absence_suppression:
  assumes "c = run cs (setupState rt init)"
    and "i < length (observers c)" and "fst (observers c ! i) = PathView n"
    and "n < length (views c)" and "v_path (views c ! n) = p"
  shows "NextValue VNull \<notin> set (logs c i) \<and> NextValue VUndefined \<notin> set (logs c i) \<and>
         (\<forall>s. NextState s \<notin> set (logs c i)) \<and>
         (\<forall>e. ErrorEv e \<in> set (logs c i) \<longrightarrow> ErrorEv e \<in> set (trace c)) \<and>
         (\<not> list_ex failed (trace c) \<longrightarrow> (\<forall>e. ErrorEv e \<notin> set (logs c i))) \<and>
         ((\<forall>s. NextState s \<in> set (trace c) \<longrightarrow> \<not> present (pluck rt p s)) \<longrightarrow>
            (\<forall>x. NextValue x \<notin> set (logs c i)))"
proof -
  have s: "sound_at rt (trace c) c" unfolding assms(1) by (rule sound_run)
  have ok: "ok_event rt (trace c) p ev" if "ev \<in> set (logs c i)" for ev
    using sound_atD(2) [OF s assms(2,3), of ev] that assms(5) by (simp add: logs_def)
  have 1: "NextValue VNull \<notin> set (logs c i)" "NextValue VUndefined \<notin> set (logs c i)"
    using ok [of "NextValue VNull"] ok [of "NextValue VUndefined"] by (auto simp: present_def)
  have 2: "ErrorEv e \<in> set (trace c)" if "ErrorEv e \<in> set (logs c i)" for e
    using ok [OF that] by simp
  have 4: "NextState s \<notin> set (logs c i)" for s
    using ok [of "NextState s"] by auto
  have 5: "ErrorEv e \<notin> set (logs c i)" if "\<not> list_ex failed (trace c)" for e
  proof
    assume "ErrorEv e \<in> set (logs c i)"
    then have "ErrorEv e \<in> set (trace c)" by (rule 2)
    then have "list_ex failed (trace c)" unfolding list_ex_iff by (rule bexI [rotated]) simp
    then show False using that by simp
  qed
  have 3: "NextValue x \<notin> set (logs c i)"
    if "\<forall>s. NextState s \<in> set (trace c) \<longrightarrow> \<not> present (pluck rt p s)" for x
  proof
    assume "NextValue x \<in> set (logs c i)"
    then have "ok_event rt (trace c) p (NextValue x)" by (rule ok)
    then have px: "present x" and "list_ex (extracted rt p x) (trace c)" by simp_all
    then obtain ev where ev: "ev \<in> set (trace c)" "extracted rt p x ev" by (auto simp: list_ex_iff)
    obtain s' where "ev = NextState s'" "pluck rt p s' = x" using ev(2) by (cases ev) auto
    then show False using that ev(1) px by auto
  qed
  show ?thesis using 1 2 3 4 5 by blast
qed

theorem absence_suppression_witness:
  "fst (observers (run [GetState [''missing'', ''path''], Subscribe (PathView 0),
           SetState (UPartial [(''a'', VNum 1)]), SetState (UPartial [(''b'', VNull)]),
           SetState (UPartial [(''missing'', VObj 1 [(''x'', VNum 1)])])]
          (setupState example_runtime [(''a'', VNum 0)])) ! 0) = PathView 0 \<and>
   v_path (views (run [GetState [''missing'', ''path''], Subscribe (PathView 0),
           SetState (UPartial [(''a'', VNum 1)]), SetState (UPartial [(''b'', VNull)]),
           SetState (UPartial [(''missing'', VObj 1 [(''x'', VNum 1)])])]
          (setupState example_runtime [(''a'', VNum 0)])) ! 0) = [''missing'', ''path''] \<and>
   length (trace (run [GetState [''missing'', ''path''], Subscribe (PathView 0),
           SetState (UPartial [(''a'', VNum 1)]), SetState (UPartial [(''b'', VNull)]),
           SetState (UPartial [(''missing'', VObj 1 [(''x'', VNum 1)])])]
          (setupState example_runtime [(''a'', VNum 0)]))) = 3 \<and>
   logs (run [GetState [''missing'', ''path''], Subscribe (PathView 0),
           SetState (UPartial [(''a'', VNum 1)]), SetState (UPartial [(''b'', VNull)]),
           SetState (UPartial [(''missing'', VObj 1 [(''x'', VNum 1)])])]
          (setupState example_runtime [(''a'', VNum 0)])) 0 = []"
proof -
  define c where "c = run [GetState [''missing'', ''path''], Subscribe (PathView 0),
           SetState (UPartial [(''a'', VNum 1)]), SetState (UPartial [(''b'', VNull)]),
           SetState (UPartial [(''missing'', VObj 1 [(''x'', VNum 1)])])]
          (setupState example_runtime [(''a'', VNum 0)])"
  have i: "0 < length (observers c)" and f: "fst (observers c ! 0) = PathView 0"
    and n: "0 < length (views c)" and p: "v_path (views c ! 0) = [''missing'', ''path'']"
    and t: "trace c = [NextState [(''a'', VNum 1)],
                       NextState [(''a'', VNum 1), (''b'', VNull)],
                       NextState [(''a'', VNum 1), (''b'', VNull), (''missing'', VObj 1 [(''x'', VNum 1)])]]"
    by (simp_all add: c_def container_defs)
  have h: "\<forall>s. NextState s \<in> set (trace c) \<longrightarrow>
      \<not> present (pluck example_runtime [''missing'', ''path''] s)"
    by (auto simp: t present_def get_member_def example_runtime_def object_prototype_def)
  have nf: "\<not> list_ex failed (trace c)" by (simp add: t)
  note r = absence_suppression [OF c_def i f n p]
  have "ev \<notin> set (logs c 0)" for ev
  proof (cases ev)
    case (NextState s)
    then show ?thesis using r by blast
  next
    case (NextValue x)
    then show ?thesis using r h by blast
  next
    case (ErrorEv e)
    then show ?thesis using r nf by blast
  qed
  then have "logs c 0 = []" by (cases "logs c 0") auto
  moreover have "length (trace c) = 3" by (simp add: t)
  ultimately show ?thesis using f p unfolding c_def by blast
qed

text \<open>
  Claim C9 holds for an update that is a function and for a partial without the
  property \<open>apply\<close>, but the program breaks it on a well-typed partial that has a truthy
  property \<open>apply\<close> (the state type may declare such a field): \<open>isFunction\<close> takes the
  partial for a function, the reducer calls it, and the call raises a \<open>TypeError\<close>. No
  snapshot is published and \<open>state$\<close> ends with that error.
\<close>

theorem isFunction_misclassifies_partial:
  "isFunction (UPartial [(''apply'', VNum 1)]) \<and>
   accumulator [(''apply'', VNum 0)] (UPartial [(''apply'', VNum 1)]) = Inl TypeError \<and>
   trace (run [Subscribe FullState, SetState (UPartial [(''apply'', VNum 1)])]
            (setupState example_runtime [(''apply'', VNum 0)])) = [ErrorEv TypeError] \<and>
   logs (run [Subscribe FullState, SetState (UPartial [(''apply'', VNum 1)])]
           (setupState example_runtime [(''apply'', VNum 0)])) 0 = [ErrorEv TypeError]"
  by (simp add: container_defs)

text \<open>
  Claim C10: in the chain of a view, a candidate that has passed the distinct-change
  stage is delivered to every observer of the view unless it is \<open>null\<close> or
  \<open>undefined\<close>, and those two are the only values the filter removes: the falsy values
  0, the empty string, \<open>false\<close> and \<open>NaN\<close> are delivered.
\<close>

theorem falsy_values_delivered:
  assumes "c = run cs (setupState rt init)"
    and "n < length (views c)" and "i \<in> set (v_observers (views c ! n))"
    and "accumulator (seed c) u = Inr s"
    and "x = pluck rt (v_path (views c ! n)) s"
    and "distinctUntilChanged (v_key (views c ! n)) x"
  shows "logs (setState u c) i =
           logs c i @ (if x = VNull \<or> x = VUndefined then [] else [NextValue x])"
proof -
  have w: "wf c" unfolding assms(1) by (rule wf_reachable)
  note f = wf_view_observer_facts [OF w assms(2,3)]
  let ?c = "(note_calls u c)\<lparr>seed := s\<rparr>"
  have "same_shape c ?c" by (simp add: same_shape_def)
  then have ws: "wf ?c" using w wf_same_shape by blast
  have "logs (publish s ?c) i =
           logs ?c i @
             (if distinctUntilChanged (v_key (views ?c ! n)) (pluck (env ?c) (v_path (views ?c ! n)) s) \<and>
                 present (pluck (env ?c) (v_path (views ?c ! n)) s)
              then [NextValue (pluck (env ?c) (v_path (views ?c ! n)) s)] else [])"
    by (rule publish_view_log [OF ws]) (use assms(2,3) in simp_all)
  moreover have "env c = rt" unfolding assms(1) by (simp add: setupState_def)
  ultimately show ?thesis
    using f(2) assms(4-6) by (simp add: setState_def logs_def present_def note_calls_def)
qed

theorem falsy_values_delivered_witness:
  "logs (setState (UPartial [(''a'', VNum 0)])
           (run [GetState [''a''], Subscribe (PathView 0)] (setupState example_runtime [(''a'', VNum 1)]))) 0 =
     [NextValue (VNum 0)] \<and>
   logs (setState (UPartial [(''a'', VStr [])])
           (run [GetState [''a''], Subscribe (PathView 0)] (setupState example_runtime [(''a'', VNum 1)]))) 0 =
     [NextValue (VStr [])] \<and>
   logs (setState (UPartial [(''a'', VBool False)])
           (run [GetState [''a''], Subscribe (PathView 0)] (setupState example_runtime [(''a'', VNum 1)]))) 0 =
     [NextValue (VBool False)] \<and>
   logs (setState (UPartial [(''a'', VNull)])
           (run [GetState [''a''], Subscribe (PathView 0)] (setupState example_runtime [(''a'', VNum 1)]))) 0 = []"
proof -
  define c where "c = run [GetState [''a''], Subscribe (PathView 0)] (setupState example_runtime [(''a'', VNum 1)])"
  have v: "0 < length (views c)" and o: "0 \<in> set (v_observers (views c ! 0))"
    and k: "v_key (views c ! 0) = None" and p: "v_path (views c ! 0) = [''a'']"
    and g: "logs c 0 = []" and s: "seed c = [(''a'', VNum 1)]"
    by (simp_all add: c_def container_defs)
  have a: "accumulator (seed c) (UPartial [(''a'', y)]) = Inr [(''a'', y)]" for y
    by (simp add: s accumulator_def applied_def shallow_merge_def)
  have x: "y = pluck example_runtime (v_path (views c ! 0)) [(''a'', y)]" if "y \<noteq> VUndefined" for y
    using that by (simp add: p get_member_def)
  have d: "distinctUntilChanged (v_key (views c ! 0)) y" for y by (simp add: k)
  have "logs (setState (UPartial [(''a'', VNum 0)]) c) 0 = [NextValue (VNum 0)]"
    using falsy_values_delivered [OF c_def v o a x d, of "VNum 0"] g by simp
  moreover have "logs (setState (UPartial [(''a'', VStr [])]) c) 0 = [NextValue (VStr [])]"
    using falsy_values_delivered [OF c_def v o a x d, of "VStr []"] g by simp
  moreover have "logs (setState (UPartial [(''a'', VBool False)]) c) 0 = [NextValue (VBool False)]"
    using falsy_values_delivered [OF c_def v o a x d, of "VBool False"] g by simp
  moreover have "logs (setState (UPartial [(''a'', VNull)]) c) 0 = []"
    using falsy_values_delivered [OF c_def v o a x d, of VNull] g by simp
  ultimately show ?thesis unfolding c_def by blast
qed

end
